theory Spec2Isabelle
  imports Complex_Main
begin

section \<open>Text primitives used by \<open>config.py\<close>\<close>

text \<open>
  Text is a list of characters. The character classes below are the ASCII part of
  Python's: white space is what \<open>str.strip()\<close> removes among the code points below
  128, a digit is one of 0 to 9, and \<open>lower\<close> touches only A to Z. Text outside
  ASCII is outside this development.
\<close>

definition py_space :: "char \<Rightarrow> bool" where
  "py_space c = (c \<in> set [CHR 0x09, CHR 0x0A, CHR 0x0B, CHR 0x0C, CHR 0x0D,
                           CHR 0x1C, CHR 0x1D, CHR 0x1E, CHR 0x1F, CHR 0x20])"

definition py_linebreak :: "char \<Rightarrow> bool" where
  "py_linebreak c = (c \<in> set [CHR 0x0A, CHR 0x0B, CHR 0x0C, CHR 0x0D,
                               CHR 0x1C, CHR 0x1D, CHR 0x1E])"

definition py_digit :: "char \<Rightarrow> bool" where
  "py_digit c = (c \<in> set ''0123456789'')"

definition startswith :: "string \<Rightarrow> char \<Rightarrow> bool" where
  "startswith s c = (case s of [] \<Rightarrow> False | x # _ \<Rightarrow> x = c)"

definition endswith :: "string \<Rightarrow> char \<Rightarrow> bool" where
  "endswith s c = (case rev s of [] \<Rightarrow> False | x # _ \<Rightarrow> x = c)"

text \<open>\<open>s.strip()\<close> and \<open>s.strip(c)\<close> for a one-character argument.\<close>

definition strip_by :: "(char \<Rightarrow> bool) \<Rightarrow> string \<Rightarrow> string" where
  "strip_by p s = rev (dropWhile p (rev (dropWhile p s)))"

definition strip :: "string \<Rightarrow> string" where
  "strip s = strip_by py_space s"

definition strip_char :: "char \<Rightarrow> string \<Rightarrow> string" where
  "strip_char c s = strip_by (\<lambda>x. x = c) s"

text \<open>\<open>s[1:-1]\<close>: drop the first and the last character.\<close>

definition inner :: "string \<Rightarrow> string" where
  "inner s = butlast (tl s)"

text \<open>\<open>s.split(c)\<close>: split at every \<open>c\<close>; the result is never empty.\<close>

fun split_on :: "char \<Rightarrow> string \<Rightarrow> string list" where
  "split_on c [] = [[]]"
| "split_on c (x # xs) =
     (if x = c then [] # split_on c xs
      else (case split_on c xs of
              [] \<Rightarrow> [[x]]
            | p # ps \<Rightarrow> (x # p) # ps))"

text \<open>\<open>s.split(c, 1)\<close> for an \<open>s\<close> that contains \<open>c\<close>: the text before the first
  \<open>c\<close> and the text after it.\<close>

definition split_first :: "char \<Rightarrow> string \<Rightarrow> string \<times> string" where
  "split_first c s = (takeWhile (\<lambda>x. x \<noteq> c) s, tl (dropWhile (\<lambda>x. x \<noteq> c) s))"

definition lower_char :: "char \<Rightarrow> char" where
  "lower_char c =
     (if 65 \<le> (of_char c :: nat) \<and> (of_char c :: nat) \<le> 90
      then char_of (of_char c + (32 :: nat)) else c)"

definition lower :: "string \<Rightarrow> string" where
  "lower s = map lower_char s"

definition isdigit :: "string \<Rightarrow> bool" where
  "isdigit s = (s \<noteq> [] \<and> list_all py_digit s)"

text \<open>\<open>s.splitlines()\<close>: lines end at a line break (\<open>\r\n\<close> counts once); a final
  line break opens no further line.\<close>

fun splitlines_acc :: "string \<Rightarrow> string \<Rightarrow> string list" where
  "splitlines_acc cur [] = (if cur = [] then [] else [rev cur])"
| "splitlines_acc cur (x # xs) =
     (if x = CHR 0x0D \<and> startswith xs (CHR 0x0A) then rev cur # splitlines_acc [] (tl xs)
      else if py_linebreak x then rev cur # splitlines_acc [] xs
      else splitlines_acc (x # cur) xs)"

definition splitlines :: "string \<Rightarrow> string list" where
  "splitlines s = splitlines_acc [] s"

section \<open>Line classifier\<close>

definition isClass :: "string \<Rightarrow> bool" where
  "isClass line = (startswith line (CHR ''['') \<and> endswith line (CHR '']'') \<and> CHR ''.'' \<notin> set line)"

definition isSubClass :: "string \<Rightarrow> bool" where
  "isSubClass line = (startswith line (CHR ''['') \<and> endswith line (CHR '']'') \<and> CHR ''.'' \<in> set line)"

definition getClassSubClass :: "string \<Rightarrow> string list" where
  "getClassSubClass line = split_on (CHR ''.'') (inner line)"

definition isComment :: "string \<Rightarrow> bool" where
  "isComment line = startswith line (CHR ''#'')"

definition isProperty :: "string \<Rightarrow> bool" where
  "isProperty line = (CHR ''='' \<in> set line)"

definition isBlank :: "string \<Rightarrow> bool" where
  "isBlank line = (strip line = [])"

text \<open>The tag a line gets from the \<open>if\<close>/\<open>elif\<close> chain of \<open>_parse\<close>.\<close>

datatype tag = Comment | Blank | ClassHeader | SubclassHeader | Property | Unknown

definition classify :: "string \<Rightarrow> tag" where
  "classify line =
     (if isComment line then Comment
      else if isBlank line then Blank
      else if isClass line then ClassHeader
      else if isSubClass line then SubclassHeader
      else if isProperty line then Property
      else Unknown)"

section \<open>Values\<close>

text \<open>
  A Python float is read here as the number its literal denotes (or an infinity, or
  not-a-number); rounding to binary64 is outside the model. How Python prints a float
  is not modelled either: the encoder takes that function as its first argument.
\<close>

datatype pyfloat = Fin rat | PInf | NInf | NaN

datatype pyval =
    VNone
  | VBool bool
  | VInt int
  | VFloat pyfloat
  | VStr string
  | VList "pyval list"
  | VDict "(string \<times> pyval) list"

text \<open>A \<open>dict\<close> keeps its keys in insertion order: an association list without
  repeated keys.\<close>

type_synonym dict = "(string \<times> pyval) list"

definition dict_get :: "dict \<Rightarrow> string \<Rightarrow> pyval option" where
  "dict_get d k = map_of d k"

definition dict_has :: "dict \<Rightarrow> string \<Rightarrow> bool" where
  "dict_has d k = (map_of d k \<noteq> None)"

text \<open>\<open>d[k] = v\<close>: an existing key keeps its place, a new key goes last.\<close>

fun dict_set :: "dict \<Rightarrow> string \<Rightarrow> pyval \<Rightarrow> dict" where
  "dict_set [] k v = [(k, v)]"
| "dict_set ((k', v') # d) k v = (if k' = k then (k, v) # d else (k', v') # dict_set d k v)"

definition dict_setdefault :: "dict \<Rightarrow> string \<Rightarrow> pyval \<Rightarrow> dict" where
  "dict_setdefault d k v = (if dict_has d k then d else d @ [(k, v)])"

section \<open>Value codec: decoding\<close>

definition digit_val :: "char \<Rightarrow> nat" where
  "digit_val c = of_char c - 48"

text \<open>\<open>int(s)\<close> for an \<open>s\<close> made of digits.\<close>

definition nat_of_digits :: "string \<Rightarrow> nat" where
  "nat_of_digits s = foldl (\<lambda>a c. 10 * a + digit_val c) 0 s"

text \<open>
  \<open>float(s)\<close>, after the grammar of the language reference: an optional sign, then
  \<open>inf\<close>, \<open>infinity\<close> or \<open>nan\<close> in any case, or a decimal number with an optional
  exponent; digits may be grouped by single underscores.
\<close>

fun digitpart_ok :: "string \<Rightarrow> bool" where
  "digitpart_ok [] = False"
| "digitpart_ok [c] = py_digit c"
| "digitpart_ok (c # d # cs) =
     (py_digit c \<and> (if d = CHR ''_'' then digitpart_ok cs else digitpart_ok (d # cs)))"

definition strip_underscores :: "string \<Rightarrow> string" where
  "strip_underscores s = filter (\<lambda>c. c \<noteq> CHR ''_'') s"

definition parse_exponent :: "string \<Rightarrow> int option" where
  "parse_exponent s =
     (let ds = (if startswith s (CHR ''-'') \<or> startswith s (CHR ''+'') then tl s else s) in
      if digitpart_ok ds
      then Some ((if startswith s (CHR ''-'') then - 1 else 1) * int (nat_of_digits (strip_underscores ds)))
      else None)"

text \<open>The digits of a number as one natural, with the count of digits after the point.\<close>

definition parse_number :: "string \<Rightarrow> (nat \<times> nat) option" where
  "parse_number s =
     (if CHR ''.'' \<in> set s then
        (case split_first (CHR ''.'') s of (ip, fp) \<Rightarrow>
           if (ip = [] \<or> digitpart_ok ip) \<and> (fp = [] \<or> digitpart_ok fp) \<and> \<not> (ip = [] \<and> fp = [])
           then Some (nat_of_digits (strip_underscores (ip @ fp)), length (strip_underscores fp))
           else None)
      else if digitpart_ok s then Some (nat_of_digits (strip_underscores s), 0)
      else None)"

definition scale10 :: "nat \<Rightarrow> int \<Rightarrow> rat" where
  "scale10 m e = (if 0 \<le> e then of_nat m * 10 ^ nat e else of_nat m / 10 ^ nat (- e))"

definition is_exp_mark :: "char \<Rightarrow> bool" where
  "is_exp_mark c = (c = CHR ''e'' \<or> c = CHR ''E'')"

definition parse_floatnumber :: "string \<Rightarrow> rat option" where
  "parse_floatnumber s =
     (let m = takeWhile (\<lambda>c. \<not> is_exp_mark c) s; r = dropWhile (\<lambda>c. \<not> is_exp_mark c) s in
      case parse_number m of
        None \<Rightarrow> None
      | Some (d, k) \<Rightarrow>
          if r = [] then Some (scale10 d (- int k))
          else (case parse_exponent (tl r) of
                  None \<Rightarrow> None
                | Some e \<Rightarrow> Some (scale10 d (e - int k))))"

definition py_float :: "string \<Rightarrow> pyfloat option" where
  "py_float s0 =
     (let s = strip s0;
          neg = startswith s (CHR ''-'');
          body = (if startswith s (CHR ''-'') \<or> startswith s (CHR ''+'') then tl s else s) in
      if lower body = ''inf'' \<or> lower body = ''infinity'' then Some (if neg then NInf else PInf)
      else if lower body = ''nan'' then Some NaN
      else map_option (\<lambda>q. Fin (if neg then - q else q)) (parse_floatnumber body))"

lemma length_strip_by: "length (strip_by p s) \<le> length s"
proof -
  have "length (dropWhile p (rev (dropWhile p s))) \<le> length (rev (dropWhile p s))"
    by (rule length_dropWhile_le)
  also have "\<dots> \<le> length s"
    by (simp add: length_dropWhile_le)
  finally show ?thesis by (simp add: strip_by_def)
qed

lemma length_strip: "length (strip s) \<le> length s"
  by (simp add: strip_def length_strip_by)

lemma length_split_on: "p \<in> set (split_on c s) \<Longrightarrow> length p \<le> length s"
proof (induction s arbitrary: p)
  case Nil
  then show ?case by simp
next
  case (Cons x xs)
  show ?case
  proof (cases "x = c")
    case True
    with Cons show ?thesis by (auto simp: le_SucI)
  next
    case False
    with Cons show ?thesis
      by (cases "split_on c xs") (auto simp: le_SucI)
  qed
qed

lemma length_split_first_snd: "length (snd (split_first c s)) \<le> length s"
proof -
  have "length (tl (dropWhile (\<lambda>x. x \<noteq> c) s)) \<le> length (dropWhile (\<lambda>x. x \<noteq> c) s)"
    by simp
  also have "\<dots> \<le> length s" by (rule length_dropWhile_le)
  finally show ?thesis by (simp add: split_first_def)
qed

lemma length_inner: "s \<noteq> [] \<Longrightarrow> length (inner s) < length s"
  by (cases s) (auto simp: inner_def)

lemma startswith_nonempty: "startswith s c \<Longrightarrow> s \<noteq> []"
  by (auto simp: startswith_def)

text \<open>
  \<open>_convert_value\<close> and \<open>_parse_inline_dict\<close>. With ASCII digits \<open>int\<close> cannot fail,
  so nothing is raised inside the inline-table parser and its \<open>try\<close> always returns.
\<close>

function convert_value :: "string \<Rightarrow> pyval"
  and parse_inline_dict :: "string \<Rightarrow> dict" where
  "convert_value value0 =
     (let val = strip value0 in
      if lower val = ''true'' \<or> lower val = ''false'' then VBool (lower val = ''true'')
      else if isdigit val then VInt (int (nat_of_digits val))
      else (case py_float val of
              Some f \<Rightarrow> VFloat f
            | None \<Rightarrow>
                if startswith val (CHR ''['') \<and> endswith val (CHR '']'') then
                  VList (map (\<lambda>item. convert_value (strip item))
                           (filter (\<lambda>item. strip item \<noteq> []) (split_on (CHR '','') (inner val))))
                else if startswith val (CHR ''{'') \<and> endswith val (CHR ''}'') then
                  VDict (parse_inline_dict val)
                else VStr (strip_char (CHR ''\"'') val)))"
| "parse_inline_dict val =
     (let inn = strip (inner val) in
      if inn \<noteq> [] then
        foldl (\<lambda>result part.
                 if CHR ''='' \<in> set part then
                   (case split_first (CHR ''='') part of (k, v) \<Rightarrow>
                      dict_set result
                        (strip_char (CHR 0x27) (strip_char (CHR ''\"'') (strip k)))
                        (convert_value (strip v)))
                 else result)
              [] (split_on (CHR '','') inn)
      else [])"
  by pat_completeness auto

termination
proof (relation "measure (\<lambda>x. case x of Inl s \<Rightarrow> 2 * length s + 1 | Inr s \<Rightarrow> 2 * length s)",
    goal_cases)
  case 1
  then show ?case by simp
next
  case (2 value0 val item)
  then have "item \<in> set (split_on (CHR '','') (inner val))" and "val \<noteq> []"
    by (auto dest: startswith_nonempty)
  then have "length item < length val"
    using length_split_on [of item "CHR '',''" "inner val"] length_inner [of val] by simp
  moreover have "length (strip item) \<le> length item" by (rule length_strip)
  moreover have "length val \<le> length value0" using 2 by (simp add: length_strip)
  ultimately show ?case by simp
next
  case (3 value0 val)
  then have "length val \<le> length value0" by (simp add: length_strip)
  then show ?case by simp
next
  case (4 val inn result part k v)
  then have part: "part \<in> set (split_on (CHR '','') inn)"
    and nonempty: "inn \<noteq> []" and inn: "inn = strip (inner val)"
    by auto
  have v: "v = snd (split_first (CHR ''='') part)"
    using 4 by (metis snd_conv)
  have "val \<noteq> []" using nonempty inn by (auto simp: inner_def strip_def strip_by_def)
  then have "length inn < length val"
    using length_strip [of "inner val"] length_inner [of val] inn by simp
  moreover have "length part \<le> length inn" using part by (rule length_split_on)
  moreover have "length v \<le> length part" unfolding v by (rule length_split_first_snd)
  moreover have "length (strip v) \<le> length v" by (rule length_strip)
  ultimately show ?case by simp
qed

declare convert_value.simps [simp del] parse_inline_dict.simps [simp del]

section \<open>Value codec: encoding\<close>

definition digit_char :: "nat \<Rightarrow> char" where
  "digit_char d = char_of (48 + d)"

fun digits_of :: "nat \<Rightarrow> string" where
  "digits_of n = (if n < 10 then [digit_char n] else digits_of (n div 10) @ [digit_char (n mod 10)])"

declare digits_of.simps [simp del]

text \<open>\<open>str(n)\<close> for an integer.\<close>

definition str_int :: "int \<Rightarrow> string" where
  "str_int n = (if n < 0 then CHR ''-'' # digits_of (nat (- n)) else digits_of (nat n))"

text \<open>\<open>sep.join(xs)\<close>\<close>

fun join :: "string \<Rightarrow> string list \<Rightarrow> string" where
  "join sep [] = []"
| "join sep [x] = x"
| "join sep (x # y # ys) = x @ sep @ join sep (y # ys)"

text \<open>\<open>_value_to_string\<close>; \<open>fs\<close> is \<open>str\<close> on floats. Anything that is neither a
  boolean, a number, a list nor a dict is formatted and quoted, \<open>None\<close> included.\<close>

fun value_to_string :: "(pyfloat \<Rightarrow> string) \<Rightarrow> pyval \<Rightarrow> string" where
  "value_to_string fs (VBool b) = (if b then ''true'' else ''false'')"
| "value_to_string fs (VInt n) = str_int n"
| "value_to_string fs (VFloat f) = fs f"
| "value_to_string fs (VList vs) = ''['' @ join '', '' (map (value_to_string fs) vs) @ '']''"
| "value_to_string fs (VDict kvs) =
     ''{ '' @ join '', '' (map (\<lambda>kv. ''\"'' @ fst kv @ ''\" = '' @ value_to_string fs (snd kv)) kvs) @ '' }''"
| "value_to_string fs (VStr s) = ''\"'' @ s @ ''\"''"
| "value_to_string fs VNone = ''\"None\"''"

section \<open>The configuration object\<close>

datatype error = LoadFailure | ValueError | AttributeError | KeyError

text \<open>
  The fields of \<open>Config\<close>. \<open>current_class\<close> is the tuple \<open>()\<close> (here \<open>None\<close>) or a
  triple of class, subclass or \<open>None\<close>, and the flag. \<open>backing\<close> is the text of the
  file at \<open>path\<close>, \<open>None\<close> when it cannot be opened. Messages printed on the way are
  not part of the state.
\<close>

record config =
  file_object :: dict
  current_class :: "(string \<times> string option \<times> bool) option"
  subclasses :: "string \<rightharpoonup> string set"
  backing :: "string option"

definition classExists :: "config \<Rightarrow> string \<Rightarrow> bool" where
  "classExists st key = dict_has (file_object st) key"

definition load :: "config \<Rightarrow> error + string" where
  "load st = (case backing st of None \<Rightarrow> Inl LoadFailure | Some text \<Rightarrow> Inr text)"

definition newClass :: "string \<Rightarrow> config \<Rightarrow> config" where
  "newClass line st =
     (let class_name = inner line in
      if \<not> classExists st class_name then
        st\<lparr>current_class := Some (class_name, None, False),
           file_object := dict_setdefault (file_object st) class_name (VDict []),
           subclasses := (subclasses st)(class_name \<mapsto> {})\<rparr>
      else st)"

text \<open>Unpacking into two names fails unless the split gives exactly two parts.\<close>

definition newSubClass :: "string \<Rightarrow> config \<Rightarrow> error + config" where
  "newSubClass line st =
     (case getClassSubClass line of
        [cls, subclass] \<Rightarrow>
          (let st1 = st\<lparr>current_class := Some (cls, Some subclass, True)\<rparr>;
               st2 = (if \<not> classExists st1 cls then
                        st1\<lparr>file_object := dict_setdefault (file_object st1) cls (VDict []),
                            subclasses := (subclasses st1)(cls \<mapsto> {})\<rparr>
                      else st1) in
           case subclasses st2 cls of
             None \<Rightarrow> Inl KeyError
           | Some names \<Rightarrow>
               (let st3 = st2\<lparr>subclasses := (subclasses st2)(cls \<mapsto> insert subclass names)\<rparr> in
                case dict_get (file_object st3) cls of
                  None \<Rightarrow> Inl KeyError
                | Some (VDict d) \<Rightarrow>
                    Inr (st3\<lparr>file_object :=
                           dict_set (file_object st3) cls (VDict (dict_setdefault d subclass (VDict [])))\<rparr>)
                | Some _ \<Rightarrow> Inl AttributeError))
      | _ \<Rightarrow> Inl ValueError)"

definition newProperty :: "string \<Rightarrow> config \<Rightarrow> error + config" where
  "newProperty line st =
     (case current_class st of
        None \<Rightarrow> Inr st
      | Some (cls, sub, flag) \<Rightarrow>
          if CHR ''='' \<notin> set line then Inl ValueError
          else
            (case split_first (CHR ''='') line of (key0, value0) \<Rightarrow>
               (let key = strip key0; val = convert_value (strip value0) in
                case dict_get (file_object st) cls of
                  None \<Rightarrow> Inl KeyError
                | Some (VDict d) \<Rightarrow>
                    if flag then
                      (case sub of
                         None \<Rightarrow> Inl KeyError
                       | Some subclass \<Rightarrow>
                           (case dict_get d subclass of
                              None \<Rightarrow> Inl KeyError
                            | Some (VDict sd) \<Rightarrow>
                                Inr (st\<lparr>file_object :=
                                       dict_set (file_object st) cls
                                         (VDict (dict_set d subclass (VDict (dict_setdefault sd key val))))\<rparr>)
                            | Some _ \<Rightarrow> Inl AttributeError))
                    else
                      Inr (st\<lparr>file_object :=
                             dict_set (file_object st) cls (VDict (dict_setdefault d key val))\<rparr>)
                | Some _ \<Rightarrow> Inl AttributeError)))"

definition parse_line :: "string \<Rightarrow> config \<Rightarrow> error + config" where
  "parse_line line st =
     (if isComment line \<or> isBlank line then Inr st
      else if isClass line then Inr (newClass line st)
      else if isSubClass line then newSubClass line st
      else if isProperty line then newProperty line st
      else Inr st)"

fun parse_lines :: "string list \<Rightarrow> config \<Rightarrow> error + config" where
  "parse_lines [] st = Inr st"
| "parse_lines (line # rest) st =
     (case parse_line line st of Inl e \<Rightarrow> Inl e | Inr st' \<Rightarrow> parse_lines rest st')"

definition parse :: "config \<Rightarrow> error + config" where
  "parse st = (case load st of Inl e \<Rightarrow> Inl e | Inr text \<Rightarrow> parse_lines (splitlines text) st)"

text \<open>\<open>Config(path)\<close>, given what the file at \<open>path\<close> holds.\<close>

definition new_config :: "string option \<Rightarrow> config" where
  "new_config file = \<lparr>file_object = [], current_class = None, subclasses = Map.empty, backing = file\<rparr>"

definition init :: "string option \<Rightarrow> error + config" where
  "init file = parse (new_config file)"

section \<open>Serializer\<close>

fun write_props :: "(pyfloat \<Rightarrow> string) \<Rightarrow> dict \<Rightarrow> string" where
  "write_props fs [] = []"
| "write_props fs ((key, val) # rest) =
     key @ '' = '' @ value_to_string fs val @ [CHR 0x0A] @ write_props fs rest"

text \<open>
  The writers return the text written and the error that stopped them, if any: what was
  written before an error stays in the file.
\<close>

fun write_subs :: "(pyfloat \<Rightarrow> string) \<Rightarrow> string \<Rightarrow> dict \<Rightarrow> string \<times> error option" where
  "write_subs fs class_name [] = ([], None)"
| "write_subs fs class_name ((sub_name, sub_data) # rest) =
     (let header = ''['' @ class_name @ ''.'' @ sub_name @ '']'' @ [CHR 0x0A] in
      case sub_data of
        VDict sd \<Rightarrow>
          (case write_subs fs class_name rest of
             (t, e) \<Rightarrow> (header @ write_props fs sd @ [CHR 0x0A] @ t, e))
      | _ \<Rightarrow> (header, Some AttributeError))"

definition registered :: "(string \<rightharpoonup> string set) \<Rightarrow> string \<Rightarrow> string set" where
  "registered idx class_name = (case idx class_name of None \<Rightarrow> {} | Some names \<Rightarrow> names)"

fun write_classes ::
  "(pyfloat \<Rightarrow> string) \<Rightarrow> (string \<rightharpoonup> string set) \<Rightarrow> dict \<Rightarrow> string \<times> error option" where
  "write_classes fs idx [] = ([], None)"
| "write_classes fs idx ((class_name, data) # rest) =
     (case data of
        VDict d \<Rightarrow>
          (let props = filter (\<lambda>kv. fst kv \<notin> registered idx class_name) d;
               subs = filter (\<lambda>kv. fst kv \<in> registered idx class_name) d;
               head = (if props \<noteq> [] then
                         ''['' @ class_name @ '']'' @ [CHR 0x0A] @ write_props fs props @ [CHR 0x0A]
                       else []) in
           case write_subs fs class_name subs of
             (t, Some e) \<Rightarrow> (head @ t, Some e)
           | (t, None) \<Rightarrow>
               (case write_classes fs idx rest of (t', e) \<Rightarrow> (head @ t @ t', e)))
      | _ \<Rightarrow> ([], Some AttributeError))"

text \<open>\<open>_save\<close>: the file is replaced by what was written; the second component is the
  error raised, if any.\<close>

definition save :: "(pyfloat \<Rightarrow> string) \<Rightarrow> config \<Rightarrow> config \<times> error option" where
  "save fs st =
     (case write_classes fs (subclasses st) (file_object st) of
        (t, e) \<Rightarrow> (st\<lparr>backing := Some t\<rparr>, e))"

section \<open>Path accessor\<close>

fun get_walk :: "pyval \<Rightarrow> string list \<Rightarrow> error + pyval" where
  "get_walk d [] = Inr d"
| "get_walk d (part # parts) =
     (case d of
        VNone \<Rightarrow> Inr VNone
      | VDict m \<Rightarrow> get_walk (case dict_get m part of None \<Rightarrow> VNone | Some v \<Rightarrow> v) parts
      | _ \<Rightarrow> Inl AttributeError)"

definition get :: "string \<Rightarrow> config \<Rightarrow> error + pyval" where
  "get key st =
     (if key = ''*'' then Inr (VDict (file_object st))
      else get_walk (VDict (file_object st)) (split_on (CHR ''.'') key))"

text \<open>
  The walk of \<open>set\<close>. The code changes the dicts in place; here the changed document
  is returned. The two agree as long as no dict of the document has two owners, which
  is so for every dict the parser or \<open>set\<close> makes; the value given to \<open>set\<close> is
  stored as it is.
\<close>

fun set_walk :: "dict \<Rightarrow> string list \<Rightarrow> pyval \<Rightarrow> dict" where
  "set_walk d [] v = d"
| "set_walk d [part] v = dict_set d part v"
| "set_walk d (part # parts) v =
     (let sub = (case dict_get d part of Some (VDict m) \<Rightarrow> m | _ \<Rightarrow> []) in
      dict_set d part (VDict (set_walk sub parts v)))"


section \<open>Notions the properties are stated with\<close>

text \<open>Text within ASCII, where the character classes of this development are Python's.\<close>

definition ascii :: "string \<Rightarrow> bool" where
  "ascii s = list_all (\<lambda>c. (of_char c :: nat) < 128) s"

text \<open>
  The section that a property line writes to: the mapping the pointer \<open>current_class\<close>
  leads to, when there is one.
\<close>

definition active_section :: "config \<Rightarrow> dict option" where
  "active_section st =
     (case current_class st of
        None \<Rightarrow> None
      | Some (cls, sub, flag) \<Rightarrow>
          (case dict_get (file_object st) cls of
             Some (VDict d) \<Rightarrow>
               if flag then
                 (case sub of
                    None \<Rightarrow> None
                  | Some subclass \<Rightarrow>
                      (case dict_get d subclass of Some (VDict sd) \<Rightarrow> Some sd | _ \<Rightarrow> None))
               else Some d
           | _ \<Rightarrow> None))"

text \<open>The dotted path of that section.\<close>

definition active_path :: "config \<Rightarrow> string" where
  "active_path st =
     (case current_class st of
        Some (cls, Some subclass, True) \<Rightarrow> cls @ ''.'' @ subclass
      | Some (cls, _, _) \<Rightarrow> cls
      | None \<Rightarrow> [])"

text \<open>The key and the decoded value of a property line, as \<open>_newProperty\<close> takes them.\<close>

definition property_key :: "string \<Rightarrow> string" where
  "property_key line = strip (fst (split_first (CHR ''='') line))"

definition property_value :: "string \<Rightarrow> pyval" where
  "property_value line = convert_value (strip (snd (split_first (CHR ''='') line)))"

text \<open>The decoded value of the first line with key \<open>k\<close>.\<close>

fun first_value :: "string \<Rightarrow> string list \<Rightarrow> pyval option" where
  "first_value k [] = None"
| "first_value k (line # rest) =
     (if property_key line = k then Some (property_value line) else first_value k rest)"


text \<open>
  The invariant of the sub-table index: every key registered for a section is an entry
  of that section, and the entry is a mapping.
\<close>

definition index_inv :: "config \<Rightarrow> bool" where
  "index_inv st =
     (\<forall>S K. K \<in> registered (subclasses st) S \<longrightarrow>
        (\<exists>d m. dict_get (file_object st) S = Some (VDict d) \<and> dict_get d K = Some (VDict m)))"






section \<open>Documents the serializer can express\<close>

text \<open>A text that begins with a quote, a bracket or a brace is no number.\<close>

definition opener :: "char \<Rightarrow> bool" where
  "opener c = (c = CHR ''\"'' \<or> c = CHR ''['' \<or> c = CHR ''{'')"

text \<open>
  The conditions under which a value is read back from its own encoding. A float must
  be one that \<open>str\<close> prints as a literal of the same number, without white space
  around it, and must not be not-a-number, which equals nothing. A string must not
  begin or end with a double quote, since decoding strips them all. Inside a list or an
  inline table only scalars without a comma can stand, since the decoder splits at
  every comma; a key of an inline table also holds no \<open>=\<close> and no quote at either end.
\<close>

definition has_linebreak :: "string \<Rightarrow> bool" where
  "has_linebreak s = list_ex py_linebreak s"

definition float_ok :: "(pyfloat \<Rightarrow> string) \<Rightarrow> pyfloat \<Rightarrow> bool" where
  "float_ok fs f =
     (f \<noteq> NaN \<and> convert_value (fs f) = VFloat f \<and> strip (fs f) = fs f \<and>
      CHR '','' \<notin> set (fs f) \<and> \<not> has_linebreak (fs f))"

fun scalar_ok :: "(pyfloat \<Rightarrow> string) \<Rightarrow> pyval \<Rightarrow> bool" where
  "scalar_ok fs (VBool b) = True"
| "scalar_ok fs (VInt n) = (0 \<le> n)"
| "scalar_ok fs (VFloat f) = float_ok fs f"
| "scalar_ok fs (VStr s) =
     (\<not> startswith s (CHR ''\"'') \<and> \<not> endswith s (CHR ''\"'') \<and> \<not> has_linebreak s)"
| "scalar_ok fs v = False"

definition item_ok :: "(pyfloat \<Rightarrow> string) \<Rightarrow> pyval \<Rightarrow> bool" where
  "item_ok fs v = (scalar_ok fs v \<and> (case v of VStr s \<Rightarrow> CHR '','' \<notin> set s | _ \<Rightarrow> True))"

definition inline_key_ok :: "string \<Rightarrow> bool" where
  "inline_key_ok k =
     (CHR '','' \<notin> set k \<and> CHR ''='' \<notin> set k \<and> \<not> has_linebreak k \<and>
      \<not> startswith k (CHR ''\"'') \<and> \<not> endswith k (CHR ''\"'') \<and>
      \<not> startswith k (CHR 0x27) \<and> \<not> endswith k (CHR 0x27))"

fun value_ok :: "(pyfloat \<Rightarrow> string) \<Rightarrow> pyval \<Rightarrow> bool" where
  "value_ok fs (VList vs) = list_all (item_ok fs) vs"
| "value_ok fs (VDict kvs) =
     (distinct (map fst kvs) \<and> list_all (\<lambda>kv. inline_key_ok (fst kv) \<and> item_ok fs (snd kv)) kvs)"
| "value_ok fs v = scalar_ok fs v"

text \<open>
  A property key is read back from its line when it is stripped, holds no \<open>=\<close> and
  does not begin with \<open>#\<close> or \<open>[\<close>, which would make the line a comment or a
  header. A name of a section or sub-table holds no dot.
\<close>

definition key_ok :: "string \<Rightarrow> bool" where
  "key_ok k =
     (strip k = k \<and> CHR ''='' \<notin> set k \<and> \<not> has_linebreak k \<and>
      \<not> startswith k (CHR ''#'') \<and> \<not> startswith k (CHR ''[''))"

definition name_ok :: "string \<Rightarrow> bool" where
  "name_ok n = (CHR ''.'' \<notin> set n \<and> \<not> has_linebreak n)"

definition props_ok :: "(pyfloat \<Rightarrow> string) \<Rightarrow> dict \<Rightarrow> bool" where
  "props_ok fs props =
     (distinct (map fst props) \<and> list_all (\<lambda>kv. key_ok (fst kv) \<and> value_ok fs (snd kv)) props)"

definition sub_ok :: "(pyfloat \<Rightarrow> string) \<Rightarrow> string \<times> pyval \<Rightarrow> bool" where
  "sub_ok fs entry =
     (name_ok (fst entry) \<and> (case snd entry of VDict sd \<Rightarrow> props_ok fs sd | _ \<Rightarrow> False))"

text \<open>
  A section can be written and read back when it has an entry (nothing is written for
  a section without one), its own properties are as above, and every key registered
  as a sub-table holds a mapping of such properties.
\<close>

definition section_ok :: "(pyfloat \<Rightarrow> string) \<Rightarrow> (string \<rightharpoonup> string set) \<Rightarrow> string \<times> pyval \<Rightarrow> bool" where
  "section_ok fs idx entry =
     (name_ok (fst entry) \<and>
      (case snd entry of
         VDict d \<Rightarrow>
           d \<noteq> [] \<and> distinct (map fst d) \<and>
           list_all (\<lambda>kv. key_ok (fst kv) \<and> value_ok fs (snd kv))
             (filter (\<lambda>kv. fst kv \<notin> registered idx (fst entry)) d) \<and>
           list_all (sub_ok fs) (filter (\<lambda>kv. fst kv \<in> registered idx (fst entry)) d)
       | _ \<Rightarrow> False))"

definition expressible :: "(pyfloat \<Rightarrow> string) \<Rightarrow> config \<Rightarrow> bool" where
  "expressible fs st =
     (distinct (map fst (file_object st)) \<and>
      list_all (section_ok fs (subclasses st)) (file_object st))"

text \<open>
  Equality by value. Two mappings are the same when they hold the same keys with the
  same values, in whatever order; two documents are the same when they hold the same
  sections, in the same order here, and each section is the same mapping in both.
  Values are compared as the model has them, which is finer than Python's \<open>==\<close>
  (a list or an inline table is compared with its order, an int never equals a float).
\<close>

definition same_mapping :: "dict \<Rightarrow> dict \<Rightarrow> bool" where
  "same_mapping a b = (distinct (map fst a) \<and> distinct (map fst b) \<and> set a = set b)"

definition same_document :: "dict \<Rightarrow> dict \<Rightarrow> bool" where
  "same_document D D' =
     list_all2 (\<lambda>e e'. fst e = fst e' \<and>
        (case (snd e, snd e') of (VDict d, VDict d') \<Rightarrow> same_mapping d d' | _ \<Rightarrow> False)) D D'"

text \<open>A section in the order in which the serializer writes it and the parser reads it
  back: the properties of the section itself, then its sub-tables.\<close>

definition written_order :: "(string \<rightharpoonup> string set) \<Rightarrow> string \<times> pyval \<Rightarrow> string \<times> pyval" where
  "written_order idx entry =
     (case snd entry of
        VDict d \<Rightarrow>
          (fst entry,
           VDict (filter (\<lambda>kv. fst kv \<notin> registered idx (fst entry)) d @
                  filter (\<lambda>kv. fst kv \<in> registered idx (fst entry)) d))
      | _ \<Rightarrow> entry)"

text \<open>One entry of an inline table as the encoder writes it, and the step of the
  inline-table parser on one part of the text.\<close>

definition inline_item :: "(pyfloat \<Rightarrow> string) \<Rightarrow> string \<times> pyval \<Rightarrow> string" where
  "inline_item fs kv = ''\"'' @ fst kv @ ''\" = '' @ value_to_string fs (snd kv)"

definition inline_step :: "dict \<Rightarrow> string \<Rightarrow> dict" where
  "inline_step result part =
     (if CHR ''='' \<in> set part then
        (case split_first (CHR ''='') part of (k, v) \<Rightarrow>
           dict_set result
             (strip_char (CHR 0x27) (strip_char (CHR ''\"'') (strip k)))
             (convert_value (strip v)))
      else result)"

section \<open>The dispatch of \<open>_parse\<close>, dictionaries, the serializer and the accessor: basic facts\<close>

lemma isClass_not_skipped: "isClass line \<Longrightarrow> \<not> isComment line \<and> \<not> isBlank line"
  by (cases line) (auto simp: isClass_def isComment_def isBlank_def startswith_def py_space_def
      strip_def strip_by_def dropWhile_eq_Nil_conv)

lemma parse_line_classify:
  "parse_line line st =
     (case classify line of
        Comment \<Rightarrow> Inr st
      | Blank \<Rightarrow> Inr st
      | ClassHeader \<Rightarrow> Inr (newClass line st)
      | SubclassHeader \<Rightarrow> newSubClass line st
      | Property \<Rightarrow> newProperty line st
      | Unknown \<Rightarrow> Inr st)"
  by (simp add: parse_line_def classify_def)

lemma map_of_dict_set: "map_of (dict_set d k v) = (map_of d)(k \<mapsto> v)"
  by (induction d k v rule: dict_set.induct) auto

lemma dict_get_dict_set: "dict_get (dict_set d k v) k' = (if k' = k then Some v else dict_get d k')"
  by (simp add: dict_get_def map_of_dict_set)

lemma dict_set_absent: "\<not> dict_has d k \<Longrightarrow> dict_set d k v = d @ [(k, v)]"
  by (induction d k v rule: dict_set.induct) (auto simp: dict_has_def split: if_splits)








lemma set_walk_deep:
  "\<exists>m. set_walk d (p0 # p1 # p2 # rest) v =
        dict_set d p0 (VDict (dict_set (case dict_get d p0 of Some (VDict x) \<Rightarrow> x | _ \<Rightarrow> []) p1 (VDict m)))"
  by (auto simp: Let_def)

lemma get_walk_found:
  "dict_get m part = Some v \<Longrightarrow> get_walk (VDict m) (part # parts) = get_walk v parts"
  by simp




section \<open>Property lines under one header\<close>

lemma dict_get_setdefault:
  "dict_get (dict_setdefault d k v) k' =
     (case dict_get d k' of Some x \<Rightarrow> Some x | None \<Rightarrow> if k' = k then Some v else None)"
  by (auto simp: dict_setdefault_def dict_get_def dict_has_def map_of_append map_add_def
      split: option.splits)

lemma newProperty_active:
  assumes active: "active_section st = Some sec" and eq: "CHR ''='' \<in> set line"
  shows "\<exists>st'. newProperty line st = Inr st' \<and> current_class st' = current_class st \<and>
     active_section st' = Some (dict_setdefault sec (property_key line) (property_value line))"
proof -
  from active obtain cls sub flag where cur: "current_class st = Some (cls, sub, flag)"
    by (cases "current_class st") (auto simp: active_section_def)
  from active cur obtain d where d: "dict_get (file_object st) cls = Some (VDict d)"
    by (auto simp: active_section_def split: option.splits pyval.splits)
  obtain key0 value0 where sp: "split_first (CHR ''='') line = (key0, value0)"
    by (cases "split_first (CHR ''='') line")
  have key: "property_key line = strip key0" and val: "property_value line = convert_value (strip value0)"
    using sp by (simp_all add: property_key_def property_value_def)
  show ?thesis
  proof (cases flag)
    case False
    with active cur d have sec: "sec = d"
      by (simp add: active_section_def)
    let ?st' = "st\<lparr>file_object := dict_set (file_object st) cls
        (VDict (dict_setdefault d (strip key0) (convert_value (strip value0))))\<rparr>"
    have "newProperty line st = Inr ?st'"
      using cur d sp eq False by (simp add: newProperty_def Let_def)
    moreover have "current_class ?st' = current_class st" by simp
    moreover have "active_section ?st' = Some (dict_setdefault sec (property_key line) (property_value line))"
      using cur False by (simp add: active_section_def dict_get_dict_set key val sec)
    ultimately show ?thesis by blast
  next
    case True
    with active cur d obtain s sd where s: "sub = Some s" and sd: "dict_get d s = Some (VDict sd)"
      and sec: "sec = sd"
      by (auto simp: active_section_def split: option.splits pyval.splits)
    let ?st' = "st\<lparr>file_object := dict_set (file_object st) cls
        (VDict (dict_set d s (VDict (dict_setdefault sd (strip key0) (convert_value (strip value0))))))\<rparr>"
    have "newProperty line st = Inr ?st'"
      using cur d sp eq True s sd by (simp add: newProperty_def Let_def)
    moreover have "current_class ?st' = current_class st" by simp
    moreover have "active_section ?st' = Some (dict_setdefault sec (property_key line) (property_value line))"
      using cur True s by (simp add: active_section_def dict_get_dict_set key val sec)
    ultimately show ?thesis by blast
  qed
qed

lemma property_line: "classify line = Property \<Longrightarrow> parse_line line st = newProperty line st \<and> CHR ''='' \<in> set line"
  by (auto simp: parse_line_classify classify_def isProperty_def split: if_splits)

lemma properties_first_wins:
  "\<forall>l\<in>set ps. classify l = Property \<Longrightarrow> active_section st = Some sec \<Longrightarrow>
   \<exists>st' sec'. parse_lines ps st = Inr st' \<and> current_class st' = current_class st \<and>
     active_section st' = Some sec' \<and>
     (\<forall>k. dict_get sec' k = (case dict_get sec k of Some v \<Rightarrow> Some v | None \<Rightarrow> first_value k ps))"
proof (induction ps arbitrary: st sec)
  case Nil
  then show ?case by (auto split: option.splits)
next
  case (Cons l ps)
  from Cons.prems have l: "parse_line l st = newProperty l st" "CHR ''='' \<in> set l"
    using property_line [of l st] by auto
  from newProperty_active [OF Cons.prems(2) l(2)] obtain st1 where
    st1: "newProperty l st = Inr st1" "current_class st1 = current_class st"
      "active_section st1 = Some (dict_setdefault sec (property_key l) (property_value l))"
    by blast
  from Cons.prems(1) have rest: "\<forall>l\<in>set ps. classify l = Property" by simp
  from Cons.IH [OF rest st1(3)] obtain st' sec' where
    r: "parse_lines ps st1 = Inr st'" "current_class st' = current_class st1"
       "active_section st' = Some sec'"
       "\<forall>k. dict_get sec' k =
          (case dict_get (dict_setdefault sec (property_key l) (property_value l)) k of
             Some v \<Rightarrow> Some v | None \<Rightarrow> first_value k ps)"
    by blast
  have "parse_lines (l # ps) st = Inr st'" using l st1 r by simp
  moreover have "current_class st' = current_class st" using r st1 by simp
  moreover have "\<forall>k. dict_get sec' k = (case dict_get sec k of Some v \<Rightarrow> Some v | None \<Rightarrow> first_value k (l # ps))"
    using r(4) by (auto simp: dict_get_setdefault split: option.splits)
  ultimately show ?case using r(3) by blast
qed

lemma split_on_no_sep: "c \<notin> set s \<Longrightarrow> split_on c s = [s]"
  by (induction s) auto

lemma split_on_sep: "c \<notin> set a \<Longrightarrow> split_on c (a @ c # b) = a # split_on c b"
  by (induction a) (auto split: list.splits)

lemma dotted_not_star: "a @ ''.'' @ b \<noteq> ''*''"
  by (cases a) auto

lemma get_in_active:
  assumes "current_class st = Some (cls, sub, flag)" and "active_section st = Some sec"
    and "CHR ''.'' \<notin> set k" and "CHR ''.'' \<notin> set cls" and "\<forall>s. sub = Some s \<longrightarrow> CHR ''.'' \<notin> set s"
  shows "get (active_path st @ ''.'' @ k) st = Inr (case dict_get sec k of Some v \<Rightarrow> v | None \<Rightarrow> VNone)"
proof (cases flag)
  case False
  then have path: "active_path st = cls"
    using assms(1) by (auto simp: active_path_def split: option.splits)
  from False assms(1,2) obtain d where d: "dict_get (file_object st) cls = Some (VDict d)" "sec = d"
    by (auto simp: active_section_def split: option.splits pyval.splits)
  have "split_on (CHR ''.'') (cls @ ''.'' @ k) = [cls, k]"
    using assms(3,4) by (simp add: split_on_sep split_on_no_sep)
  then show ?thesis
    using d dotted_not_star [of cls k] by (simp add: path get_def split: option.splits)
next
  case True
  with assms(1,2) obtain s d where
    s: "sub = Some s" and d: "dict_get (file_object st) cls = Some (VDict d)"
    and sd: "dict_get d s = Some (VDict sec)"
    by (auto simp: active_section_def split: option.splits pyval.splits)
  have path: "active_path st = cls @ ''.'' @ s"
    using True assms(1) s by (simp add: active_path_def)
  have "split_on (CHR ''.'') ((cls @ ''.'' @ s) @ ''.'' @ k) = [cls, s, k]"
    using assms(3,4,5) s by (simp add: split_on_sep split_on_no_sep)
  then show ?thesis
    using d sd dotted_not_star [of "cls @ ''.'' @ s" k]
    by (simp add: path get_def split: option.splits)
qed


section \<open>Steps that keep the invariant of the sub-table index\<close>


lemma index_invD:
  "index_inv st \<Longrightarrow> K \<in> registered (subclasses st) S \<Longrightarrow>
   \<exists>d m. dict_get (file_object st) S = Some (VDict d) \<and> dict_get d K = Some (VDict m)"
  by (simp add: index_inv_def)

lemma dict_get_setdefault_other:
  "k' \<noteq> k \<Longrightarrow> dict_get (dict_setdefault d k v) k' = dict_get d k'"
  by (simp add: dict_get_setdefault split: option.splits)








lemma classExists_registered:
  "index_inv st \<Longrightarrow> \<not> classExists st c \<Longrightarrow> registered (subclasses st) c = {}"
proof (rule ccontr)
  assume inv: "index_inv st" and fresh: "\<not> classExists st c" and "registered (subclasses st) c \<noteq> {}"
  then obtain K where "K \<in> registered (subclasses st) c" by blast
  from index_invD [OF inv this] fresh show False
    by (auto simp: classExists_def dict_has_def dict_get_def)
qed














section \<open>Facts about stripping\<close>

lemma strip_by_cons_drop: "p a \<Longrightarrow> strip_by p (a # s) = strip_by p s"
  by (simp add: strip_by_def)

lemma strip_by_snoc_drop: "p b \<Longrightarrow> strip_by p (s @ [b]) = strip_by p s"
proof (cases "\<forall>x\<in>set s. p x")
  case True
  assume b: "p b"
  from True have "dropWhile p s = []" by (induction s) auto
  moreover from True b have "dropWhile p (s @ [b]) = []" by (induction s) auto
  ultimately show ?thesis by (simp only: strip_by_def)
next
  case False
  assume b: "p b"
  from False obtain x where "x \<in> set s" "\<not> p x" by blast
  then have "dropWhile p (s @ [b]) = dropWhile p s @ [b]"
    by (rule dropWhile_append1)
  with b show ?thesis by (simp add: strip_by_def)
qed

lemma strip_by_id: "s \<noteq> [] \<Longrightarrow> \<not> p (hd s) \<Longrightarrow> \<not> p (last s) \<Longrightarrow> strip_by p s = s"
proof -
  assume s: "s \<noteq> []" and h: "\<not> p (hd s)" and l: "\<not> p (last s)"
  from s h have "dropWhile p s = s" by (cases s) auto
  moreover from s l have "dropWhile p (rev s) = rev s"
    by (simp add: dropWhile_eq_self_iff hd_rev)
  ultimately show ?thesis by (simp add: strip_by_def)
qed

lemma strip_by_Nil: "strip_by p [] = []"
  by (simp add: strip_by_def)

lemma strip_by_ends:
  assumes "strip_by p s \<noteq> []"
  shows "\<not> p (hd (strip_by p s))" and "\<not> p (last (strip_by p s))"
proof -
  let ?u = "dropWhile p s"
  let ?t = "strip_by p s"
  have rt: "rev ?t = dropWhile p (rev ?u)" by (simp add: strip_by_def)
  with assms have "dropWhile p (rev ?u) \<noteq> []" by (metis rev_is_Nil_conv)
  then have "\<not> p (hd (dropWhile p (rev ?u)))" by (rule hd_dropWhile)
  then show "\<not> p (last ?t)" using rt assms by (metis hd_rev)
  have "rev ?u = takeWhile p (rev ?u) @ dropWhile p (rev ?u)" by simp
  then have "?u = rev (dropWhile p (rev ?u)) @ rev (takeWhile p (rev ?u))"
    by (metis rev_append rev_rev_ident)
  then have u: "?u = ?t @ rev (takeWhile p (rev ?u))" by (simp add: strip_by_def)
  with assms have "hd ?u = hd ?t" by (metis hd_append2)
  moreover from u assms have "?u \<noteq> []" by (metis append_is_Nil_conv)
  then have "\<not> p (hd ?u)" by (rule hd_dropWhile)
  ultimately show "\<not> p (hd ?t)" by simp
qed

lemma strip_by_idem: "strip_by p (strip_by p s) = strip_by p s"
proof (cases "strip_by p s = []")
  case True
  then show ?thesis by (simp add: strip_by_Nil)
next
  case False
  from strip_by_id [OF False strip_by_ends [OF False]] show ?thesis .
qed

lemma strip_idem: "strip (strip s) = strip s"
  by (simp add: strip_def strip_by_idem)

lemma convert_value_strip: "convert_value (strip s) = convert_value s"
  by (simp add: convert_value.simps [of s] convert_value.simps [of "strip s"] strip_idem)

lemma strip_by_wrapped:
  "p a \<Longrightarrow> p b \<Longrightarrow> strip_by p (a # s @ [b]) = strip_by p s"
  using strip_by_cons_drop [of p a "s @ [b]"] strip_by_snoc_drop [of p b s] by simp

section \<open>Decoding what the encoder writes\<close>

lemma py_digit_range: "py_digit c = (48 \<le> (of_char c :: nat) \<and> (of_char c :: nat) \<le> 57)"
  unfolding py_digit_def by (cases c) auto

lemma digit_val_digit_char: "d < 10 \<Longrightarrow> digit_val (digit_char d) = d"
  by (simp add: digit_val_def digit_char_def)

lemma py_digit_digit_char: "d < 10 \<Longrightarrow> py_digit (digit_char d)"
  by (simp add: py_digit_range digit_char_def)

lemma nat_of_digits_snoc: "nat_of_digits (s @ [c]) = 10 * nat_of_digits s + digit_val c"
  by (simp add: nat_of_digits_def)

lemma digits_of_props:
  "digits_of n \<noteq> [] \<and> list_all py_digit (digits_of n) \<and> nat_of_digits (digits_of n) = n"
proof (induction n rule: digits_of.induct)
  case (1 n)
  show ?case
  proof (cases "n < 10")
    case True
    then show ?thesis
      by (simp add: digits_of.simps [of n] py_digit_digit_char nat_of_digits_def digit_val_digit_char)
  next
    case False
    with 1 have ih: "list_all py_digit (digits_of (n div 10))" "nat_of_digits (digits_of (n div 10)) = n div 10"
      by auto
    have "n mod 10 < 10" by simp
    with False ih show ?thesis
      by (simp add: digits_of.simps [of n] py_digit_digit_char nat_of_digits_snoc digit_val_digit_char)
  qed
qed

lemma py_digit_not_space: "py_digit c \<Longrightarrow> \<not> py_space c"
  by (auto simp: py_digit_def py_space_def)

lemma py_digit_not_linebreak: "py_digit c \<Longrightarrow> \<not> py_linebreak c"
  by (auto simp: py_digit_def py_linebreak_def)

lemma strip_id: "s \<noteq> [] \<Longrightarrow> \<not> py_space (hd s) \<Longrightarrow> \<not> py_space (last s) \<Longrightarrow> strip s = s"
  by (simp add: strip_def strip_by_id)

lemma list_all_hd_last: "list_all P s \<Longrightarrow> s \<noteq> [] \<Longrightarrow> P (hd s) \<and> P (last s)"
  by (simp add: list_all_iff)

lemma lower_hd: "s \<noteq> [] \<Longrightarrow> hd (lower s) = lower_char (hd s)"
  by (cases s) (simp_all add: lower_def)

lemma lower_char_digit: "py_digit c \<Longrightarrow> lower_char c = c"
  by (auto simp: py_digit_def lower_char_def)

lemma convert_value_digits:
  assumes "isdigit s"
  shows "convert_value s = VInt (int (nat_of_digits s))"
proof -
  from assms have ne: "s \<noteq> []" and all: "list_all py_digit s" by (simp_all add: isdigit_def)
  from list_all_hd_last [OF all ne] have hd: "py_digit (hd s)" and "py_digit (last s)" by simp_all
  then have st: "strip s = s" using ne by (simp add: strip_id py_digit_not_space)
  have "hd (lower s) = hd s" using ne hd by (simp add: lower_hd lower_char_digit)
  with hd have "lower s \<noteq> ''true''" "lower s \<noteq> ''false''"
    by (auto simp: py_digit_def)
  with assms st show ?thesis by (simp add: convert_value.simps [of s])
qed

lemma convert_value_str_int: "0 \<le> n \<Longrightarrow> convert_value (str_int n) = VInt n"
  using digits_of_props [of "nat n"]
  by (simp add: str_int_def convert_value_digits isdigit_def)

lemma convert_value_bool: "convert_value (if b then ''true'' else ''false'') = VBool b"
proof (cases b)
  case True
  have "convert_value ''true'' = VBool True" by code_simp
  with True show ?thesis by simp
next
  case False
  have "convert_value ''false'' = VBool False" by code_simp
  with False show ?thesis by simp
qed

lemma digitpart_ok_hd: "digitpart_ok (c # cs) \<Longrightarrow> py_digit c"
  by (cases cs) auto

lemma parse_number_none:
  assumes "\<not> py_digit c" and "c \<noteq> CHR ''.''"
  shows "parse_number (c # t) = None"
proof (cases "CHR ''.'' \<in> set (c # t)")
  case True
  have "fst (split_first (CHR ''.'') (c # t)) = c # takeWhile (\<lambda>x. x \<noteq> CHR ''.'') t"
    using assms(2) by (simp add: split_first_def)
  then obtain fp where sp: "split_first (CHR ''.'') (c # t) = (c # takeWhile (\<lambda>x. x \<noteq> CHR ''.'') t, fp)"
    by (metis prod.collapse)
  have "\<not> digitpart_ok (c # takeWhile (\<lambda>x. x \<noteq> CHR ''.'') t)"
    using assms(1) digitpart_ok_hd by blast
  with True sp show ?thesis by (simp add: parse_number_def)
next
  case False
  have "\<not> digitpart_ok (c # t)" using assms(1) digitpart_ok_hd by blast
  with False show ?thesis by (simp add: parse_number_def)
qed

lemma parse_floatnumber_none:
  assumes "\<not> py_digit c" and "c \<noteq> CHR ''.''" and "\<not> is_exp_mark c"
  shows "parse_floatnumber (c # t) = None"
proof -
  have "takeWhile (\<lambda>x. \<not> is_exp_mark x) (c # t) = c # takeWhile (\<lambda>x. \<not> is_exp_mark x) t"
    using assms(3) by simp
  then show ?thesis
    using parse_number_none [OF assms(1,2)] by (simp add: parse_floatnumber_def Let_def)
qed

lemma opener_facts:
  assumes "opener c"
  shows "\<not> py_digit c" "c \<noteq> CHR ''.''" "\<not> is_exp_mark c" "c \<noteq> CHR ''-''" "c \<noteq> CHR ''+''"
    "lower_char c = c" "\<not> py_space c"
  using assms by (auto simp: opener_def py_digit_def is_exp_mark_def lower_char_def py_space_def)

lemma py_float_opener:
  assumes op: "opener c" and st: "strip (c # t) = c # t"
  shows "py_float (c # t) = None"
proof -
  note f = opener_facts [OF op]
  have body: "(if startswith (c # t) (CHR ''-'') \<or> startswith (c # t) (CHR ''+'') then tl (c # t) else c # t) = c # t"
    using f by (simp add: startswith_def)
  have low: "lower (c # t) = c # lower t" using f by (simp add: lower_def)
  have "c \<noteq> CHR ''i''" "c \<noteq> CHR ''n''" using op by (auto simp: opener_def)
  then have names: "lower (c # t) \<noteq> ''inf''" "lower (c # t) \<noteq> ''infinity''" "lower (c # t) \<noteq> ''nan''"
    unfolding low by auto
  have "parse_floatnumber (c # t) = None" using f by (simp add: parse_floatnumber_none)
  then show ?thesis
    unfolding py_float_def st Let_def body using names by simp
qed

lemma not_true_false: "opener c \<Longrightarrow> lower (c # t) \<noteq> ''true'' \<and> lower (c # t) \<noteq> ''false''"
  by (auto simp: opener_def lower_def lower_char_def)

lemma not_isdigit: "opener c \<Longrightarrow> \<not> isdigit (c # t)"
  by (auto simp: opener_def isdigit_def py_digit_def)

lemma strip_char_quoted:
  assumes "\<not> startswith s (CHR ''\"'')" and "\<not> endswith s (CHR ''\"'')"
  shows "strip_char (CHR ''\"'') (CHR ''\"'' # s @ [CHR ''\"'']) = s"
proof (cases "s = []")
  case True
  then show ?thesis by (simp add: strip_char_def strip_by_def)
next
  case False
  then have "hd s \<noteq> CHR ''\"''" using assms(1) by (cases s) (auto simp: startswith_def)
  moreover have "last s \<noteq> CHR ''\"''"
    using assms(2) False by (cases "rev s") (auto simp: endswith_def last_rev [symmetric] hd_rev)
  ultimately have "strip_by (\<lambda>x. x = CHR ''\"'') s = s" using False by (simp add: strip_by_id)
  then show ?thesis by (simp add: strip_char_def strip_by_wrapped)
qed

lemma strip_wrapped_id:
  "\<not> py_space a \<Longrightarrow> \<not> py_space b \<Longrightarrow> strip (a # s @ [b]) = a # s @ [b]"
  by (rule strip_id) simp_all

lemma convert_value_quoted:
  assumes "\<not> startswith s (CHR ''\"'')" and "\<not> endswith s (CHR ''\"'')"
  shows "convert_value (CHR ''\"'' # s @ [CHR ''\"'']) = VStr s"
proof -
  let ?q = "CHR ''\"''"
  let ?v = "?q # s @ [?q]"
  have op: "opener ?q" by (simp add: opener_def)
  have st: "strip ?v = ?v" by (rule strip_wrapped_id) (simp_all add: py_space_def)
  have fl: "py_float ?v = None" using op st by (rule py_float_opener)
  have nb: "lower ?v \<noteq> ''true''" "lower ?v \<noteq> ''false''" using not_true_false [OF op] by auto
  have nd: "\<not> isdigit ?v" using not_isdigit [OF op] .
  have "\<not> startswith ?v (CHR ''['')" "\<not> startswith ?v (CHR ''{'')" by (simp_all add: startswith_def)
  with st fl nb nd show ?thesis
    by (simp add: convert_value.simps [of ?v] strip_char_quoted [OF assms])
qed

lemma convert_value_cong_strip: "strip a = strip b \<Longrightarrow> convert_value a = convert_value b"
  by (simp add: convert_value.simps [of a] convert_value.simps [of b])

lemma strip_space_cons: "strip (CHR '' '' # s) = strip s"
  by (simp add: strip_def strip_by_cons_drop py_space_def)

lemma strip_space_snoc: "strip (s @ '' '') = strip s"
  by (simp add: strip_def strip_by_snoc_drop py_space_def)

lemma convert_value_space: "convert_value (CHR '' '' # s) = convert_value s"
  by (rule convert_value_cong_strip) (rule strip_space_cons)

lemma convert_value_empty: "convert_value [] = VStr []"
  by code_simp

lemma float_text_nonempty: "float_ok fs f \<Longrightarrow> fs f \<noteq> []"
  by (auto simp: float_ok_def convert_value_empty)

lemma has_linebreak_iff: "has_linebreak s = (\<exists>c\<in>set s. py_linebreak c)"
  by (simp add: has_linebreak_def list_ex_iff)

text \<open>What the encoder writes for a scalar: stripped, not empty, on one line, and read
  back as the scalar.\<close>

lemma bool_text:
  "value_to_string fs (VBool b) \<noteq> [] \<and>
   strip (value_to_string fs (VBool b)) = value_to_string fs (VBool b) \<and>
   \<not> has_linebreak (value_to_string fs (VBool b)) \<and>
   convert_value (value_to_string fs (VBool b)) = VBool b"
proof -
  have t: "strip ''true'' = ''true''" by code_simp
  have f: "strip ''false'' = ''false''" by code_simp
  have lt: "\<not> has_linebreak ''true''" by code_simp
  have lf: "\<not> has_linebreak ''false''" by code_simp
  have ct: "convert_value ''true'' = VBool True" by code_simp
  have cf: "convert_value ''false'' = VBool False" by code_simp
  show ?thesis
  proof (cases b)
    case True
    with t lt ct show ?thesis by simp
  next
    case False
    with f lf cf show ?thesis by simp
  qed
qed

lemma int_text:
  assumes n: "0 \<le> n"
  shows "value_to_string fs (VInt n) \<noteq> [] \<and>
   strip (value_to_string fs (VInt n)) = value_to_string fs (VInt n) \<and>
   \<not> has_linebreak (value_to_string fs (VInt n)) \<and>
   convert_value (value_to_string fs (VInt n)) = VInt n"
proof -
  let ?d = "digits_of (nat n)"
  have enc: "value_to_string fs (VInt n) = ?d" using n by (simp add: str_int_def)
  from digits_of_props [of "nat n"] have d: "?d \<noteq> []" "list_all py_digit ?d" by simp_all
  from list_all_hd_last [OF d(2,1)] have s: "strip ?d = ?d"
    using d(1) by (simp add: strip_id py_digit_not_space)
  have l: "\<not> has_linebreak ?d"
    using d(2) by (auto simp: has_linebreak_iff list_all_iff py_digit_not_linebreak)
  have c: "convert_value ?d = VInt n"
    using convert_value_str_int [OF n] n by (simp add: str_int_def)
  show ?thesis unfolding enc using d(1) s l c by (intro conjI)
qed


lemma str_text:
  assumes s: "\<not> startswith s (CHR ''\"'')" "\<not> endswith s (CHR ''\"'')" "\<not> has_linebreak s"
  shows "value_to_string fs (VStr s) \<noteq> [] \<and>
   strip (value_to_string fs (VStr s)) = value_to_string fs (VStr s) \<and>
   \<not> has_linebreak (value_to_string fs (VStr s)) \<and>
   convert_value (value_to_string fs (VStr s)) = VStr s"
proof -
  let ?q = "CHR ''\"''"
  have enc: "value_to_string fs (VStr s) = ?q # s @ [?q]" by simp
  have st: "strip (?q # s @ [?q]) = ?q # s @ [?q]"
    by (rule strip_wrapped_id) (simp_all add: py_space_def)
  have l: "\<not> has_linebreak (?q # s @ [?q])"
    using s(3) by (auto simp: has_linebreak_iff py_linebreak_def)
  have c: "convert_value (?q # s @ [?q]) = VStr s"
    using s(1,2) by (rule convert_value_quoted)
  have ne: "?q # s @ [?q] \<noteq> []" by simp
  show ?thesis unfolding enc using ne st l c by (intro conjI)
qed

lemma scalar_text:
  assumes "scalar_ok fs v"
  shows "value_to_string fs v \<noteq> [] \<and>
   strip (value_to_string fs v) = value_to_string fs v \<and>
   \<not> has_linebreak (value_to_string fs v) \<and>
   convert_value (value_to_string fs v) = v"
proof (cases v)
  case (VBool b)
  then show ?thesis using bool_text [of fs b] by simp
next
  case (VInt n)
  with assms have "0 \<le> n" by simp
  then show ?thesis using VInt int_text [of n fs] by simp
next
  case (VFloat f)
  with assms have "float_ok fs f" by simp
  then show ?thesis using VFloat float_text_nonempty [of fs f] by (simp add: float_ok_def)
next
  case (VStr s)
  with assms show ?thesis using str_text [of s fs] by simp
next
  case VNone
  with assms show ?thesis by simp
next
  case (VList vs)
  with assms show ?thesis by simp
next
  case (VDict kvs)
  with assms show ?thesis by simp
qed

lemma comma_not_digit: "\<not> py_digit (CHR '','')"
  by (simp add: py_digit_range)

lemma item_text_no_comma:
  assumes "item_ok fs v"
  shows "CHR '','' \<notin> set (value_to_string fs v)"
proof (cases v)
  case (VBool b)
  have "CHR '','' \<notin> set ''true''" "CHR '','' \<notin> set ''false''" by simp_all
  then show ?thesis unfolding VBool by (cases b) simp_all
next
  case (VInt n)
  with assms have n: "0 \<le> n" by (simp add: item_ok_def)
  from digits_of_props [of "nat n"] have "list_all py_digit (digits_of (nat n))" by simp
  then have "CHR '','' \<notin> set (digits_of (nat n))"
    using comma_not_digit by (metis list_all_iff)
  with VInt n show ?thesis by (simp add: str_int_def)
next
  case (VFloat f)
  with assms show ?thesis by (simp add: item_ok_def float_ok_def)
next
  case (VStr s)
  with assms show ?thesis by (simp add: item_ok_def)
next
  case VNone
  with assms show ?thesis by (simp add: item_ok_def)
next
  case (VList vs)
  with assms show ?thesis by (simp add: item_ok_def)
next
  case (VDict kvs)
  with assms show ?thesis by (simp add: item_ok_def)
qed

lemma split_on_nonempty: "split_on c s \<noteq> []"
  by (induction s) (auto split: list.splits)

lemma split_on_cons_other:
  "x \<noteq> c \<Longrightarrow> split_on c (x # s) = (x # hd (split_on c s)) # tl (split_on c s)"
  using split_on_nonempty [of c s] by (cases "split_on c s") auto

lemma split_on_join:
  "\<forall>y\<in>set (x # xs). CHR '','' \<notin> set y \<Longrightarrow>
   split_on (CHR '','') (join '', '' (x # xs)) = x # map (\<lambda>y. CHR '' '' # y) xs"
proof (induction xs arbitrary: x)
  case Nil
  then show ?case by (simp add: split_on_no_sep)
next
  case (Cons y ys)
  let ?rest = "CHR '' '' # join '', '' (y # ys)"
  have j: "join '', '' (x # y # ys) = x @ CHR '','' # ?rest" by simp
  have ih: "split_on (CHR '','') (join '', '' (y # ys)) = y # map (\<lambda>y. CHR '' '' # y) ys"
    using Cons.IH [of y] Cons.prems by simp
  have r: "split_on (CHR '','') ?rest = (CHR '' '' # y) # map (\<lambda>y. CHR '' '' # y) ys"
    using ih by simp
  have "CHR '','' \<notin> set x" using Cons.prems by simp
  then have s1: "split_on (CHR '','') (x @ CHR '','' # ?rest) = x # split_on (CHR '','') ?rest"
    by (rule split_on_sep)
  show ?case unfolding j s1 r by simp
qed

lemma inner_wrapped: "inner (a # s @ [b]) = s"
  by (simp add: inner_def butlast_append)

lemma convert_value_list:
  "convert_value (CHR ''['' # body @ '']'') =
     VList (map (\<lambda>item. convert_value (strip item))
              (filter (\<lambda>item. strip item \<noteq> []) (split_on (CHR '','') body)))"
proof -
  let ?v = "CHR ''['' # body @ '']''"
  have op: "opener (CHR ''['')" by (simp add: opener_def)
  have st: "strip ?v = ?v" by (rule strip_wrapped_id) (simp_all add: py_space_def)
  have fl: "py_float ?v = None" using op st by (rule py_float_opener)
  have nb: "lower ?v \<noteq> ''true''" "lower ?v \<noteq> ''false''" using not_true_false [OF op] by auto
  have nd: "\<not> isdigit ?v" using not_isdigit [OF op] .
  have br: "startswith ?v (CHR ''['')" "endswith ?v (CHR '']'')"
    by (simp_all add: startswith_def endswith_def)
  show ?thesis
    using st fl nb nd br by (simp add: convert_value.simps [of ?v] inner_wrapped)
qed

lemma item_decode:
  assumes "item_ok fs x"
  shows "strip (CHR '' '' # value_to_string fs x) \<noteq> []"
    and "strip (value_to_string fs x) \<noteq> []"
    and "convert_value (strip (CHR '' '' # value_to_string fs x)) = x"
    and "convert_value (strip (value_to_string fs x)) = x"
proof -
  from assms have "scalar_ok fs x" by (simp add: item_ok_def)
  note t = scalar_text [OF this]
  from t show a: "strip (value_to_string fs x) \<noteq> []" by simp
  then show "strip (CHR '' '' # value_to_string fs x) \<noteq> []" by (simp add: strip_space_cons)
  from t show "convert_value (strip (value_to_string fs x)) = x" by simp
  then show "convert_value (strip (CHR '' '' # value_to_string fs x)) = x"
    by (simp add: strip_space_cons)
qed

lemma list_roundtrip:
  assumes "list_all (item_ok fs) vs"
  shows "convert_value (value_to_string fs (VList vs)) = VList vs"
proof (cases vs)
  case Nil
  have "convert_value ''[]'' = VList []" by code_simp
  with Nil show ?thesis by simp
next
  case (Cons x xs)
  let ?ts = "map (value_to_string fs) (x # xs)"
  have items: "\<forall>y\<in>set (x # xs). item_ok fs y" using assms Cons by (simp add: list_all_iff)
  then have nc: "\<forall>t\<in>set (value_to_string fs x # map (value_to_string fs) xs). CHR '','' \<notin> set t"
    by (auto simp: item_text_no_comma)
  have sp: "split_on (CHR '','') (join '', '' ?ts) =
      value_to_string fs x # map (\<lambda>y. CHR '' '' # y) (map (value_to_string fs) xs)"
    using split_on_join [OF nc] by simp
  have keep: "filter (\<lambda>item. strip item \<noteq> [])
        (value_to_string fs x # map (\<lambda>y. CHR '' '' # y) (map (value_to_string fs) xs)) =
      value_to_string fs x # map (\<lambda>y. CHR '' '' # y) (map (value_to_string fs) xs)"
    using items by (auto simp: filter_id_conv item_decode)
  have dec: "map (\<lambda>item. convert_value (strip item))
        (value_to_string fs x # map (\<lambda>y. CHR '' '' # y) (map (value_to_string fs) xs)) = x # xs"
    using items by (simp add: item_decode map_idI)
  have "value_to_string fs (VList (x # xs)) = CHR ''['' # join '', '' ?ts @ '']''" by simp
  then show ?thesis
    unfolding Cons by (simp only: convert_value_list sp keep dec)
qed

lemma value_to_string_dict:
  "value_to_string fs (VDict kvs) =
     CHR ''{'' # (CHR '' '' # join '', '' (map (inline_item fs) kvs) @ '' '') @ ''}''"
proof -
  have "(\<lambda>kv. ''\"'' @ fst kv @ ''\" = '' @ value_to_string fs (snd kv)) = inline_item fs"
    by (rule ext) (simp add: inline_item_def)
  then show ?thesis by simp
qed

lemma parse_inline_dict_fold:
  "parse_inline_dict val =
     (if strip (inner val) \<noteq> [] then foldl inline_step [] (split_on (CHR '','') (strip (inner val)))
      else [])"
proof -
  have "(\<lambda>result part.
          if CHR ''='' \<in> set part then
            (case split_first (CHR ''='') part of (k, v) \<Rightarrow>
               dict_set result
                 (strip_char (CHR 0x27) (strip_char (CHR ''\"'') (strip k)))
                 (convert_value (strip v)))
          else result) = inline_step"
    by (intro ext) (simp add: inline_step_def)
  then show ?thesis by (simp add: parse_inline_dict.simps [of val] Let_def)
qed

lemma convert_value_dict:
  "convert_value (CHR ''{'' # body @ ''}'') = VDict (parse_inline_dict (CHR ''{'' # body @ ''}''))"
proof -
  let ?v = "CHR ''{'' # body @ ''}''"
  have op: "opener (CHR ''{'')" by (simp add: opener_def)
  have st: "strip ?v = ?v" by (rule strip_wrapped_id) (simp_all add: py_space_def)
  have fl: "py_float ?v = None" using op st by (rule py_float_opener)
  have nb: "lower ?v \<noteq> ''true''" "lower ?v \<noteq> ''false''" using not_true_false [OF op] by auto
  have nd: "\<not> isdigit ?v" using not_isdigit [OF op] .
  have br: "\<not> startswith ?v (CHR ''['')" "startswith ?v (CHR ''{'')" "endswith ?v (CHR ''}'')"
    by (simp_all add: startswith_def endswith_def)
  show ?thesis
    using st fl nb nd br by (simp add: convert_value.simps [of ?v])
qed

lemma split_first_item:
  assumes "CHR ''='' \<notin> set a"
  shows "split_first (CHR ''='') (a @ CHR ''='' # b) = (a, b)"
  using assms by (induction a) (auto simp: split_first_def)

lemma strip_char_id:
  assumes "\<not> startswith k c" and "\<not> endswith k c"
  shows "strip_char c k = k"
proof (cases "k = []")
  case True
  then show ?thesis by (simp add: strip_char_def strip_by_Nil)
next
  case False
  then have "hd k \<noteq> c" using assms(1) by (cases k) (auto simp: startswith_def)
  moreover have "last k \<noteq> c"
    using assms(2) False by (cases "rev k") (auto simp: endswith_def last_rev [symmetric] hd_rev)
  ultimately show ?thesis using False by (simp add: strip_char_def strip_by_id)
qed

lemma inline_step_item:
  assumes k: "inline_key_ok k" and v: "item_ok fs v"
  shows "inline_step r (inline_item fs (k, v)) = dict_set r k v"
    and "inline_step r (CHR '' '' # inline_item fs (k, v)) = dict_set r k v"
proof -
  let ?q = "CHR ''\"''"
  let ?pre = "?q # k @ [?q, CHR '' '']"
  let ?post = "CHR '' '' # value_to_string fs v"
  have item: "inline_item fs (k, v) = ?pre @ CHR ''='' # ?post"
    by (simp add: inline_item_def)
  have ne: "CHR ''='' \<notin> set ?pre" "CHR ''='' \<notin> set (CHR '' '' # ?pre)"
    using k by (simp_all add: inline_key_ok_def)
  have sp: "split_first (CHR ''='') (inline_item fs (k, v)) = (?pre, ?post)"
    unfolding item using ne(1) by (rule split_first_item)
  have sp': "split_first (CHR ''='') (CHR '' '' # inline_item fs (k, v)) = (CHR '' '' # ?pre, ?post)"
    using split_first_item [OF ne(2), of ?post] by (simp add: item)
  have "strip ?pre = strip (?q # k @ [?q])"
    using strip_space_snoc [of "?q # k @ [?q]"] by simp
  also have "\<dots> = ?q # k @ [?q]" by (rule strip_wrapped_id) (simp_all add: py_space_def)
  finally have s1: "strip ?pre = ?q # k @ [?q]" .
  then have s2: "strip (CHR '' '' # ?pre) = ?q # k @ [?q]" by (simp add: strip_space_cons)
  have key: "strip_char (CHR 0x27) (strip_char ?q (?q # k @ [?q])) = k"
    using k by (simp add: inline_key_ok_def strip_char_quoted strip_char_id)
  have val: "convert_value (strip ?post) = v" using v by (rule item_decode(3))
  have eq: "CHR ''='' \<in> set (inline_item fs (k, v))" by (simp add: item)
  show "inline_step r (inline_item fs (k, v)) = dict_set r k v"
    using eq by (simp add: inline_step_def sp s1 key val del: strip_char_def)
  show "inline_step r (CHR '' '' # inline_item fs (k, v)) = dict_set r k v"
    using eq by (simp add: inline_step_def sp' s2 key val)
qed

lemma dict_has_append: "dict_has (r @ [(k, v)]) k' = (dict_has r k' \<or> k' = k)"
  by (auto simp: dict_has_def map_of_append map_add_def split: option.splits)

lemma foldl_dict_set_append:
  "distinct (map fst kvs) \<Longrightarrow> \<forall>kv\<in>set kvs. \<not> dict_has r (fst kv) \<Longrightarrow>
   foldl (\<lambda>r kv. dict_set r (fst kv) (snd kv)) r kvs = r @ kvs"
proof (induction kvs arbitrary: r)
  case Nil
  then show ?case by simp
next
  case (Cons kv kvs)
  obtain k v where kv: "kv = (k, v)" by (cases kv)
  have first: "dict_set r k v = r @ [(k, v)]"
    using Cons.prems(2) kv by (simp add: dict_set_absent)
  have "\<forall>x\<in>set kvs. \<not> dict_has (r @ [(k, v)]) (fst x)"
    using Cons.prems kv by (auto simp: dict_has_append)
  moreover have "distinct (map fst kvs)" using Cons.prems(1) by simp
  ultimately have "foldl (\<lambda>r kv. dict_set r (fst kv) (snd kv)) (r @ [(k, v)]) kvs = (r @ [(k, v)]) @ kvs"
    by (rule Cons.IH [rotated])
  then show ?case using first kv by simp
qed

lemma foldl_inline_step:
  "list_all (\<lambda>kv. inline_key_ok (fst kv) \<and> item_ok fs (snd kv)) kvs \<Longrightarrow>
   foldl inline_step r (map (\<lambda>kv. CHR '' '' # inline_item fs kv) kvs) =
   foldl (\<lambda>r kv. dict_set r (fst kv) (snd kv)) r kvs"
proof (induction kvs arbitrary: r)
  case Nil
  then show ?case by simp
next
  case (Cons kv kvs)
  obtain k v where kv: "kv = (k, v)" by (cases kv)
  from Cons.prems kv have ok: "inline_key_ok k" "item_ok fs v" by simp_all
  have "inline_step r (CHR '' '' # inline_item fs (k, v)) = dict_set r k v"
    using ok by (rule inline_step_item(2))
  then show ?case using Cons kv by simp
qed

lemma join_cons: "join sep (x # xs) = x @ concat (map (\<lambda>y. sep @ y) xs)"
  by (induction xs arbitrary: x) simp_all

lemma join_hd: "x \<noteq> [] \<Longrightarrow> hd (join sep (x # xs)) = hd x"
  by (simp add: join_cons)

lemma join_last:
  "\<forall>y\<in>set (x # xs). y \<noteq> [] \<Longrightarrow> last (join sep (x # xs)) = last (last (x # xs))"
proof (induction xs arbitrary: x)
  case Nil
  then show ?case by simp
next
  case (Cons y ys)
  have "join sep (x # y # ys) = (x @ sep) @ join sep (y # ys)" by simp
  moreover have "join sep (y # ys) \<noteq> []" using Cons.prems by (simp add: join_cons)
  ultimately have "last (join sep (x # y # ys)) = last (join sep (y # ys))"
    by (metis last_appendR)
  then show ?case using Cons.IH [of y] Cons.prems by simp
qed

lemma set_join: "set (join sep xs) \<subseteq> set sep \<union> \<Union> (set ` set xs)"
proof (cases xs)
  case Nil
  then show ?thesis by simp
next
  case (Cons x xs')
  then show ?thesis by (auto simp: join_cons)
qed

lemma strip_fixed_ends:
  assumes "strip t = t" and "t \<noteq> []"
  shows "\<not> py_space (hd t)" and "\<not> py_space (last t)"
  using strip_by_ends [of py_space t] assms by (simp_all add: strip_def)

lemma inline_item_facts:
  assumes k: "inline_key_ok k" and v: "item_ok fs v"
  shows "inline_item fs (k, v) \<noteq> []"
    and "hd (inline_item fs (k, v)) = CHR ''\"''"
    and "\<not> py_space (last (inline_item fs (k, v)))"
    and "CHR '','' \<notin> set (inline_item fs (k, v))"
    and "\<not> has_linebreak (inline_item fs (k, v))"
proof -
  from v have sc: "scalar_ok fs v" by (simp add: item_ok_def)
  note t = scalar_text [OF sc]
  let ?t = "value_to_string fs v"
  have item: "inline_item fs (k, v) = (CHR ''\"'' # k @ ''\" = '') @ ?t"
    by (simp add: inline_item_def)
  show "inline_item fs (k, v) \<noteq> []" by (simp add: item)
  show "hd (inline_item fs (k, v)) = CHR ''\"''" by (simp add: item)
  have "?t \<noteq> []" using t by simp
  then have "last (inline_item fs (k, v)) = last ?t" unfolding item by (rule last_appendR)
  moreover have "\<not> py_space (last ?t)" using t strip_fixed_ends(2) [of ?t] by simp
  ultimately show "\<not> py_space (last (inline_item fs (k, v)))" by simp
  show "CHR '','' \<notin> set (inline_item fs (k, v))"
    using k item_text_no_comma [OF v] by (simp add: item inline_key_ok_def)
  have "\<not> has_linebreak ?t" using t by simp
  then show "\<not> has_linebreak (inline_item fs (k, v))"
    using k by (auto simp: item inline_key_ok_def has_linebreak_iff py_linebreak_def)
qed

lemma dict_roundtrip:
  assumes d: "distinct (map fst kvs)"
    and ok: "list_all (\<lambda>kv. inline_key_ok (fst kv) \<and> item_ok fs (snd kv)) kvs"
  shows "convert_value (value_to_string fs (VDict kvs)) = VDict kvs"
proof (cases kvs)
  case Nil
  have "convert_value ''{  }'' = VDict []" by code_simp
  with Nil show ?thesis by (simp add: value_to_string_dict)
next
  case (Cons kv rest)
  obtain k v where kv: "kv = (k, v)" by (cases kv)
  let ?items = "map (inline_item fs) (kv # rest)"
  let ?J = "join '', '' ?items"
  let ?body = "CHR '' '' # ?J @ '' ''"
  from ok Cons kv have okk: "inline_key_ok k" "item_ok fs v"
    and okr: "list_all (\<lambda>kv. inline_key_ok (fst kv) \<and> item_ok fs (snd kv)) rest"
    by simp_all
  have each: "\<forall>x\<in>set (kv # rest). inline_key_ok (fst x) \<and> item_ok fs (snd x)"
    using ok Cons by (simp add: list_all_iff)
  have facts: "\<forall>t\<in>set ?items. t \<noteq> [] \<and> CHR '','' \<notin> set t \<and> \<not> py_space (last t)"
  proof
    fix t assume "t \<in> set ?items"
    then have "t \<in> inline_item fs ` set (kv # rest)" by (simp only: set_map)
    then obtain x where x: "x \<in> set (kv # rest)" "t = inline_item fs x" by (rule imageE)
    obtain a b where ab: "x = (a, b)" by (cases x)
    with each x(1) have "inline_key_ok a" "item_ok fs b" by auto
    from inline_item_facts [OF this] show "t \<noteq> [] \<and> CHR '','' \<notin> set t \<and> \<not> py_space (last t)"
      using x(2) ab by simp
  qed
  have items: "?items = inline_item fs (k, v) # map (inline_item fs) rest" using kv by simp
  have J_ne: "?J \<noteq> []" using facts by (simp add: join_cons)
  have "hd ?J = CHR ''\"''"
    unfolding items using inline_item_facts(1,2) [OF okk] by (simp add: join_hd)
  then have hd: "\<not> py_space (hd ?J)" by (simp add: py_space_def)
  have "last ?J = last (last ?items)"
    unfolding items by (rule join_last) (use facts items in auto)
  moreover have "last ?items \<in> set ?items" by (rule last_in_set) simp
  ultimately have lst: "\<not> py_space (last ?J)" using facts by metis
  have sJ: "strip ?J = ?J" using J_ne hd lst by (rule strip_id)
  have "inner (CHR ''{'' # ?body @ ''}'') = ?body" by (rule inner_wrapped)
  moreover have "strip ?body = strip (?J @ '' '')" by (rule strip_space_cons)
  moreover have "strip (?J @ '' '') = strip ?J" by (rule strip_space_snoc)
  ultimately have inn: "strip (inner (CHR ''{'' # ?body @ ''}'')) = ?J"
    using sJ by (simp only:)
  have sp: "split_on (CHR '','') ?J =
      inline_item fs (k, v) # map (\<lambda>y. CHR '' '' # y) (map (inline_item fs) rest)"
    unfolding items by (rule split_on_join) (use facts items in auto)
  have first: "inline_step [] (inline_item fs (k, v)) = [(k, v)]"
    using inline_step_item(1) [OF okk, of "[]"] by simp
  have rest_keys: "distinct (map fst rest)" "\<forall>x\<in>set rest. \<not> dict_has [(k, v)] (fst x)"
    using d Cons kv by (auto simp: dict_has_def)
  have "foldl inline_step [] (split_on (CHR '','') ?J) =
      foldl inline_step [(k, v)] (map (\<lambda>x. CHR '' '' # inline_item fs x) rest)"
    unfolding sp using first by (simp add: comp_def)
  also have "\<dots> = foldl (\<lambda>r kv. dict_set r (fst kv) (snd kv)) [(k, v)] rest"
    using okr by (rule foldl_inline_step)
  also have "\<dots> = [(k, v)] @ rest"
    using rest_keys by (rule foldl_dict_set_append)
  finally have fold: "foldl inline_step [] (split_on (CHR '','') ?J) = kvs"
    using Cons kv by simp
  have "parse_inline_dict (CHR ''{'' # ?body @ ''}'') = kvs"
    unfolding parse_inline_dict_fold inn using J_ne fold by simp
  then have "convert_value (CHR ''{'' # ?body @ ''}'') = VDict kvs"
    by (simp only: convert_value_dict)
  then show ?thesis unfolding Cons value_to_string_dict .
qed

lemma value_roundtrip:
  assumes "value_ok fs v"
  shows "convert_value (value_to_string fs v) = v"
proof (cases v)
  case (VList vs)
  with assms show ?thesis by (simp add: list_roundtrip del: value_to_string.simps)
next
  case (VDict kvs)
  with assms show ?thesis by (simp add: dict_roundtrip del: value_to_string.simps)
next
  case VNone
  with assms show ?thesis by simp
next
  case (VBool b)
  with assms have "scalar_ok fs v" by simp
  from scalar_text [OF this] show ?thesis by simp
next
  case (VInt n)
  with assms have "scalar_ok fs v" by simp
  from scalar_text [OF this] show ?thesis by simp
next
  case (VFloat f)
  with assms have "scalar_ok fs v" by simp
  from scalar_text [OF this] show ?thesis by simp
next
  case (VStr s)
  with assms have "scalar_ok fs v" by simp
  from scalar_text [OF this] show ?thesis by simp
qed

lemma has_linebreak_append: "has_linebreak (a @ b) = (has_linebreak a \<or> has_linebreak b)"
  by (auto simp: has_linebreak_iff)

lemma has_linebreak_join:
  assumes "\<not> has_linebreak sep" and "\<forall>x\<in>set xs. \<not> has_linebreak x"
  shows "\<not> has_linebreak (join sep xs)"
proof
  assume "has_linebreak (join sep xs)"
  then obtain c where c: "c \<in> set (join sep xs)" "py_linebreak c" by (auto simp: has_linebreak_iff)
  with set_join [of sep xs] have "c \<in> set sep \<or> (\<exists>x\<in>set xs. c \<in> set x)" by auto
  with c(2) assms show False by (auto simp: has_linebreak_iff)
qed

lemma value_one_line:
  assumes "value_ok fs v"
  shows "\<not> has_linebreak (value_to_string fs v)"
proof (cases v)
  case (VList vs)
  have sep: "\<not> has_linebreak '', ''" by code_simp
  have "\<forall>t\<in>set (map (value_to_string fs) vs). \<not> has_linebreak t"
  proof
    fix t assume "t \<in> set (map (value_to_string fs) vs)"
    then have "t \<in> value_to_string fs ` set vs" by (simp only: set_map)
    then obtain x where x: "x \<in> set vs" "t = value_to_string fs x" by (rule imageE)
    with assms VList have "scalar_ok fs x" by (simp add: list_all_iff item_ok_def)
    from scalar_text [OF this] x(2) show "\<not> has_linebreak t" by simp
  qed
  with sep have "\<not> has_linebreak (join '', '' (map (value_to_string fs) vs))"
    by (rule has_linebreak_join)
  then show ?thesis
    unfolding VList by (auto simp: has_linebreak_iff py_linebreak_def)
next
  case (VDict kvs)
  have sep: "\<not> has_linebreak '', ''" by code_simp
  have "\<forall>t\<in>set (map (inline_item fs) kvs). \<not> has_linebreak t"
  proof
    fix t assume "t \<in> set (map (inline_item fs) kvs)"
    then have "t \<in> inline_item fs ` set kvs" by (simp only: set_map)
    then obtain x where x: "x \<in> set kvs" "t = inline_item fs x" by (rule imageE)
    obtain a b where ab: "x = (a, b)" by (cases x)
    with assms VDict x(1) have "inline_key_ok a" "item_ok fs b" by (auto simp: list_all_iff)
    from inline_item_facts(5) [OF this] x(2) ab show "\<not> has_linebreak t" by simp
  qed
  with sep have "\<not> has_linebreak (join '', '' (map (inline_item fs) kvs))"
    by (rule has_linebreak_join)
  then show ?thesis
    unfolding VDict value_to_string_dict by (auto simp: has_linebreak_iff py_linebreak_def)
next
  case VNone
  with assms show ?thesis by simp
next
  case (VBool b)
  with assms have "scalar_ok fs v" by simp
  from scalar_text [OF this] show ?thesis by simp
next
  case (VInt n)
  with assms have "scalar_ok fs v" by simp
  from scalar_text [OF this] show ?thesis by simp
next
  case (VFloat f)
  with assms have "scalar_ok fs v" by simp
  from scalar_text [OF this] show ?thesis by simp
next
  case (VStr s)
  with assms have "scalar_ok fs v" by simp
  from scalar_text [OF this] show ?thesis by simp
qed

section \<open>Reading back what the serializer writes\<close>

lemma splitlines_acc_line:
  "\<not> has_linebreak l \<Longrightarrow>
   splitlines_acc cur (l @ CHR 0x0A # rest) = (rev cur @ l) # splitlines_acc [] rest"
proof (induction l arbitrary: cur)
  case Nil
  show ?case by (simp add: py_linebreak_def)
next
  case (Cons x l)
  from Cons.prems have x: "\<not> py_linebreak x" and l: "\<not> has_linebreak l"
    by (simp_all add: has_linebreak_iff)
  from x have "x \<noteq> CHR 0x0D" by (auto simp: py_linebreak_def)
  with x Cons.IH [OF l, of "x # cur"] show ?case by simp
qed

lemma splitlines_line:
  "\<not> has_linebreak l \<Longrightarrow> splitlines (l @ CHR 0x0A # rest) = l # splitlines rest"
  by (simp add: splitlines_def splitlines_acc_line)

lemma parse_lines_line:
  "\<not> has_linebreak l \<Longrightarrow>
   parse_lines (splitlines (l @ CHR 0x0A # rest)) st =
     (case parse_line l st of Inl e \<Rightarrow> Inl e | Inr st' \<Rightarrow> parse_lines (splitlines rest) st')"
  by (simp add: splitlines_line)

lemma parse_lines_blank:
  "parse_lines (splitlines (CHR 0x0A # rest)) st = parse_lines (splitlines rest) st"
proof -
  have "\<not> has_linebreak []" by (simp add: has_linebreak_iff)
  from parse_lines_line [OF this, of rest st] show ?thesis
    by (simp add: parse_line_def isBlank_def strip_def strip_by_def)
qed

lemma dict_get_last: "\<not> dict_has D S \<Longrightarrow> dict_get (D @ [(S, x)]) S = Some x"
  by (simp add: dict_get_def dict_has_def map_of_append map_add_def)

lemma dict_set_last: "\<not> dict_has D S \<Longrightarrow> dict_set (D @ [(S, x)]) S y = D @ [(S, y)]"
  by (induction D) (auto simp: dict_has_def)

lemma dict_has_last: "dict_has (D @ [(S, x)]) S"
  by (auto simp: dict_has_def map_of_append map_add_def split: option.splits)

lemma dict_has_keys: "dict_has D S = (S \<in> fst ` set D)"
  by (simp add: dict_has_def map_of_eq_None_iff)

lemma strip_Nil_iff: "strip s = [] \<Longrightarrow> c \<in> set s \<Longrightarrow> py_space c"
proof -
  assume e: "strip s = []" and c: "c \<in> set s"
  from e have a: "dropWhile py_space (rev (dropWhile py_space s)) = []"
    by (simp add: strip_def strip_by_def)
  have "dropWhile py_space s = []"
  proof (rule ccontr)
    assume n: "dropWhile py_space s \<noteq> []"
    then have "\<not> py_space (hd (dropWhile py_space s))" by (rule hd_dropWhile)
    moreover from n have "hd (dropWhile py_space s) \<in> set (rev (dropWhile py_space s))" by simp
    moreover from a have "\<forall>x\<in>set (rev (dropWhile py_space s)). py_space x"
      by (simp only: dropWhile_eq_Nil_conv)
    ultimately show False by blast
  qed
  then have "\<forall>x\<in>set s. py_space x" by (simp only: dropWhile_eq_Nil_conv)
  with c show ?thesis by blast
qed

lemma class_header_line:
  assumes "name_ok S"
  shows "parse_line (CHR ''['' # S @ '']'') st = Inr (newClass (CHR ''['' # S @ '']'') st)"
    and "inner (CHR ''['' # S @ '']'') = S"
    and "\<not> has_linebreak (CHR ''['' # S @ '']'')"
proof -
  let ?l = "CHR ''['' # S @ '']''"
  have "isClass ?l" using assms by (simp add: isClass_def startswith_def endswith_def name_ok_def)
  with isClass_not_skipped [of ?l] show "parse_line ?l st = Inr (newClass ?l st)"
    by (simp add: parse_line_def)
  show "inner ?l = S" by (rule inner_wrapped)
  show "\<not> has_linebreak ?l" using assms by (auto simp: has_linebreak_iff name_ok_def py_linebreak_def)
qed

lemma sub_header_line:
  assumes "name_ok S" and "name_ok K"
  shows "parse_line (CHR ''['' # S @ CHR ''.'' # K @ '']'') st = newSubClass (CHR ''['' # S @ CHR ''.'' # K @ '']'') st"
    and "getClassSubClass (CHR ''['' # S @ CHR ''.'' # K @ '']'') = [S, K]"
    and "\<not> has_linebreak (CHR ''['' # S @ CHR ''.'' # K @ '']'')"
proof -
  let ?l = "CHR ''['' # S @ CHR ''.'' # K @ '']''"
  have l: "?l = CHR ''['' # (S @ CHR ''.'' # K) @ '']''" by simp
  have nc: "\<not> isComment ?l" by (simp add: isComment_def startswith_def)
  have "strip ?l = ?l" unfolding l by (rule strip_id) (simp_all add: py_space_def)
  then have nb: "\<not> isBlank ?l" by (simp add: isBlank_def)
  have ncl: "\<not> isClass ?l" by (simp add: isClass_def)
  have "isSubClass ?l" by (simp add: isSubClass_def startswith_def endswith_def)
  with nc nb ncl show "parse_line ?l st = newSubClass ?l st" by (simp add: parse_line_def)
  have "inner ?l = S @ CHR ''.'' # K" unfolding l by (rule inner_wrapped)
  then show "getClassSubClass ?l = [S, K]"
    using assms by (simp add: getClassSubClass_def split_on_sep split_on_no_sep name_ok_def)
  show "\<not> has_linebreak ?l" using assms by (auto simp: has_linebreak_iff name_ok_def py_linebreak_def)
qed

lemma property_line_parts:
  assumes k: "key_ok k" and v: "value_ok fs v"
  shows "parse_line (k @ '' = '' @ value_to_string fs v) st = newProperty (k @ '' = '' @ value_to_string fs v) st"
    and "split_first (CHR ''='') (k @ '' = '' @ value_to_string fs v) = (k @ '' '', CHR '' '' # value_to_string fs v)"
    and "strip (k @ '' '') = k"
    and "convert_value (strip (CHR '' '' # value_to_string fs v)) = v"
    and "\<not> has_linebreak (k @ '' = '' @ value_to_string fs v)"
    and "CHR ''='' \<in> set (k @ '' = '' @ value_to_string fs v)"
proof -
  let ?l = "k @ '' = '' @ value_to_string fs v"
  have hd: "\<not> startswith ?l (CHR ''#'')" "\<not> startswith ?l (CHR ''['')"
    using k by (cases k; simp add: key_ok_def startswith_def)+
  have eq: "CHR ''='' \<in> set ?l" by simp
  show "CHR ''='' \<in> set ?l" by simp
  have nb: "\<not> isBlank ?l"
  proof
    assume "isBlank ?l"
    then have "strip ?l = []" by (simp add: isBlank_def)
    from strip_Nil_iff [OF this eq] show False by (simp add: py_space_def)
  qed
  from hd nb eq show "parse_line ?l st = newProperty ?l st"
    by (simp add: parse_line_def isComment_def isClass_def isSubClass_def isProperty_def)
  have "CHR ''='' \<notin> set (k @ '' '')" using k by (simp add: key_ok_def)
  from split_first_item [OF this, of "CHR '' '' # value_to_string fs v"]
  show "split_first (CHR ''='') ?l = (k @ '' '', CHR '' '' # value_to_string fs v)" by simp
  show "strip (k @ '' '') = k" using k by (simp add: strip_space_snoc key_ok_def)
  show "convert_value (strip (CHR '' '' # value_to_string fs v)) = v"
    by (simp add: convert_value_strip convert_value_space value_roundtrip [OF v])
  show "\<not> has_linebreak ?l"
    using k value_one_line [OF v] by (auto simp: has_linebreak_iff key_ok_def py_linebreak_def)
qed

text \<open>One line of the written text, read in the state the parser is in at that line.\<close>

lemma read_class:
  assumes "name_ok S" and "\<not> dict_has D S"
  shows "parse_line (CHR ''['' # S @ '']'')
           \<lparr>file_object = D, current_class = cc, subclasses = idx, backing = b\<rparr> =
         Inr \<lparr>file_object = D @ [(S, VDict [])], current_class = Some (S, None, False),
              subclasses = idx(S \<mapsto> {}), backing = b\<rparr>"
  using assms
  by (simp add: class_header_line newClass_def classExists_def dict_setdefault_def Let_def)

lemma read_sub_first:
  assumes "name_ok S" and "name_ok K" and "\<not> dict_has D S"
  shows "parse_line (CHR ''['' # S @ CHR ''.'' # K @ '']'')
           \<lparr>file_object = D, current_class = cc, subclasses = idx, backing = b\<rparr> =
         Inr \<lparr>file_object = D @ [(S, VDict [(K, VDict [])])],
              current_class = Some (S, Some K, True),
              subclasses = idx(S \<mapsto> {K}), backing = b\<rparr>"
  using assms
  by (simp add: sub_header_line newSubClass_def classExists_def dict_setdefault_def Let_def
      dict_get_last dict_set_last dict_has_def)

lemma read_sub_next:
  assumes "name_ok S" and "name_ok K" and "\<not> dict_has D S" and "\<not> dict_has d K"
    and "idx S = Some names"
  shows "parse_line (CHR ''['' # S @ CHR ''.'' # K @ '']'')
           \<lparr>file_object = D @ [(S, VDict d)], current_class = cc, subclasses = idx, backing = b\<rparr> =
         Inr \<lparr>file_object = D @ [(S, VDict (d @ [(K, VDict [])]))],
              current_class = Some (S, Some K, True),
              subclasses = idx(S \<mapsto> insert K names), backing = b\<rparr>"
  using assms
  by (simp add: sub_header_line newSubClass_def classExists_def dict_setdefault_def Let_def
      dict_get_last dict_set_last dict_has_last)

lemma read_property:
  assumes "key_ok k" and "value_ok fs v" and "\<not> dict_has D S" and "\<not> dict_has d k"
  shows "parse_line (k @ '' = '' @ value_to_string fs v)
           \<lparr>file_object = D @ [(S, VDict d)], current_class = Some (S, None, False),
            subclasses = idx, backing = b\<rparr> =
         Inr \<lparr>file_object = D @ [(S, VDict (d @ [(k, v)]))], current_class = Some (S, None, False),
              subclasses = idx, backing = b\<rparr>"
proof -
  define l where "l = k @ '' = '' @ value_to_string fs v"
  note p = property_line_parts [OF assms(1,2), folded l_def]
  show ?thesis
    unfolding l_def [symmetric] p(1) newProperty_def
    using assms(3,4) p(6)
    by (simp add: p(2,3,4) dict_get_last dict_set_last dict_setdefault_def Let_def)
qed

lemma read_sub_property:
  assumes "key_ok k" and "value_ok fs v" and "\<not> dict_has D S" and "\<not> dict_has d K"
    and "\<not> dict_has sd k"
  shows "parse_line (k @ '' = '' @ value_to_string fs v)
           \<lparr>file_object = D @ [(S, VDict (d @ [(K, VDict sd)]))],
            current_class = Some (S, Some K, True), subclasses = idx, backing = b\<rparr> =
         Inr \<lparr>file_object = D @ [(S, VDict (d @ [(K, VDict (sd @ [(k, v)]))]))],
              current_class = Some (S, Some K, True), subclasses = idx, backing = b\<rparr>"
proof -
  define l where "l = k @ '' = '' @ value_to_string fs v"
  note p = property_line_parts [OF assms(1,2), folded l_def]
  show ?thesis
    unfolding l_def [symmetric] p(1) newProperty_def
    using assms(3,4,5) p(6)
    by (simp add: p(2,3,4) dict_get_last dict_set_last dict_setdefault_def Let_def)
qed

text \<open>The property lines of a section and of a sub-table.\<close>

lemma read_props:
  assumes "list_all (\<lambda>kv. key_ok (fst kv) \<and> value_ok fs (snd kv)) props"
    and "distinct (map fst (d @ props))" and "\<not> dict_has D S"
  shows "parse_lines (splitlines (write_props fs props @ rest))
           \<lparr>file_object = D @ [(S, VDict d)], current_class = Some (S, None, False),
            subclasses = idx, backing = b\<rparr> =
         parse_lines (splitlines rest)
           \<lparr>file_object = D @ [(S, VDict (d @ props))], current_class = Some (S, None, False),
            subclasses = idx, backing = b\<rparr>"
  using assms(1,2)
proof (induction props arbitrary: d)
  case Nil
  show ?case by simp
next
  case (Cons kv props)
  obtain k v where kv: "kv = (k, v)" by (cases kv)
  from Cons.prems kv have ok: "key_ok k" "value_ok fs v"
    and rest_ok: "list_all (\<lambda>kv. key_ok (fst kv) \<and> value_ok fs (snd kv)) props"
    and fresh: "\<not> dict_has d k" and dist: "distinct (map fst ((d @ [(k, v)]) @ props))"
    by (auto simp: dict_has_keys)
  define l where "l = k @ '' = '' @ value_to_string fs v"
  have shape: "write_props fs (kv # props) @ rest = l @ CHR 0x0A # (write_props fs props @ rest)"
    by (simp add: kv l_def)
  have line: "\<not> has_linebreak l"
    unfolding l_def by (rule property_line_parts(5) [OF ok])
  have step: "parse_line l \<lparr>file_object = D @ [(S, VDict d)], current_class = Some (S, None, False),
            subclasses = idx, backing = b\<rparr> =
         Inr \<lparr>file_object = D @ [(S, VDict (d @ [(k, v)]))], current_class = Some (S, None, False),
              subclasses = idx, backing = b\<rparr>"
    unfolding l_def by (rule read_property [OF ok assms(3) fresh])
  show ?case
    unfolding shape parse_lines_line [OF line] step
    using Cons.IH [OF rest_ok dist] by (simp add: kv)
qed

lemma read_sub_props:
  assumes "list_all (\<lambda>kv. key_ok (fst kv) \<and> value_ok fs (snd kv)) props"
    and "distinct (map fst (sd @ props))" and "\<not> dict_has D S" and "\<not> dict_has d K"
  shows "parse_lines (splitlines (write_props fs props @ rest))
           \<lparr>file_object = D @ [(S, VDict (d @ [(K, VDict sd)]))],
            current_class = Some (S, Some K, True), subclasses = idx, backing = b\<rparr> =
         parse_lines (splitlines rest)
           \<lparr>file_object = D @ [(S, VDict (d @ [(K, VDict (sd @ props))]))],
            current_class = Some (S, Some K, True), subclasses = idx, backing = b\<rparr>"
  using assms(1,2)
proof (induction props arbitrary: sd)
  case Nil
  show ?case by simp
next
  case (Cons kv props)
  obtain k v where kv: "kv = (k, v)" by (cases kv)
  from Cons.prems kv have ok: "key_ok k" "value_ok fs v"
    and rest_ok: "list_all (\<lambda>kv. key_ok (fst kv) \<and> value_ok fs (snd kv)) props"
    and fresh: "\<not> dict_has sd k" and dist: "distinct (map fst ((sd @ [(k, v)]) @ props))"
    by (auto simp: dict_has_keys)
  define l where "l = k @ '' = '' @ value_to_string fs v"
  have shape: "write_props fs (kv # props) @ rest = l @ CHR 0x0A # (write_props fs props @ rest)"
    by (simp add: kv l_def)
  have line: "\<not> has_linebreak l"
    unfolding l_def by (rule property_line_parts(5) [OF ok])
  have step: "parse_line l \<lparr>file_object = D @ [(S, VDict (d @ [(K, VDict sd)]))],
            current_class = Some (S, Some K, True), subclasses = idx, backing = b\<rparr> =
         Inr \<lparr>file_object = D @ [(S, VDict (d @ [(K, VDict (sd @ [(k, v)]))]))],
              current_class = Some (S, Some K, True), subclasses = idx, backing = b\<rparr>"
    unfolding l_def by (rule read_sub_property [OF ok assms(3,4) fresh])
  show ?case
    unfolding shape parse_lines_line [OF line] step
    using Cons.IH [OF rest_ok dist] by (simp add: kv)
qed

text \<open>The sub-tables of a section that is already there.\<close>

lemma read_subs:
  assumes "name_ok S" and "\<not> dict_has D S"
  shows "list_all (sub_ok fs) subs \<Longrightarrow> distinct (map fst (d @ subs)) \<Longrightarrow> idx S = Some names \<Longrightarrow>
    snd (write_subs fs S subs) = None \<and>
    (\<exists>cc' idx'. \<forall>rest.
       parse_lines (splitlines (fst (write_subs fs S subs) @ rest))
         \<lparr>file_object = D @ [(S, VDict d)], current_class = cc, subclasses = idx, backing = b\<rparr> =
       parse_lines (splitlines rest)
         \<lparr>file_object = D @ [(S, VDict (d @ subs))], current_class = cc', subclasses = idx',
          backing = b\<rparr>)"
proof (induction subs arbitrary: d cc idx names)
  case Nil
  show ?case by auto
next
  case (Cons entry subs)
  obtain K v where entry: "entry = (K, v)" by (cases entry)
  from Cons.prems(1) entry obtain sd where v: "v = VDict sd" and K: "name_ok K"
    and sd: "distinct (map fst ([] @ sd))" "list_all (\<lambda>kv. key_ok (fst kv) \<and> value_ok fs (snd kv)) sd"
    by (cases v) (auto simp: sub_ok_def props_ok_def)
  from Cons.prems(1) have rest_ok: "list_all (sub_ok fs) subs" by simp
  from Cons.prems(2) entry have fresh: "\<not> dict_has d K"
    and dist: "distinct (map fst ((d @ [(K, VDict sd)]) @ subs))"
    by (auto simp: dict_has_keys v)
  define h where "h = CHR ''['' # S @ CHR ''.'' # K @ '']''"
  define idx1 where "idx1 = idx(S \<mapsto> insert K names)"
  have idx1: "idx1 S = Some (insert K names)" by (simp add: idx1_def)
  from Cons.IH [of "d @ [(K, VDict sd)]" idx1 "insert K names" "Some (S, Some K, True)",
      OF rest_ok dist idx1]
  obtain cc' idx' where
    none: "snd (write_subs fs S subs) = None" and
    ih: "\<And>rest. parse_lines (splitlines (fst (write_subs fs S subs) @ rest))
         \<lparr>file_object = D @ [(S, VDict (d @ [(K, VDict sd)]))],
          current_class = Some (S, Some K, True), subclasses = idx1, backing = b\<rparr> =
       parse_lines (splitlines rest)
         \<lparr>file_object = D @ [(S, VDict ((d @ [(K, VDict sd)]) @ subs))], current_class = cc',
          subclasses = idx', backing = b\<rparr>"
    by blast
  have written: "write_subs fs S (entry # subs) =
      (h @ CHR 0x0A # (write_props fs sd @ CHR 0x0A # fst (write_subs fs S subs)),
       snd (write_subs fs S subs))"
    by (simp add: entry v h_def Let_def split: prod.splits)
  have line: "\<not> has_linebreak h"
    unfolding h_def by (rule sub_header_line(3) [OF assms(1) K])
  have step: "parse_line h
      \<lparr>file_object = D @ [(S, VDict d)], current_class = cc, subclasses = idx, backing = b\<rparr> =
      Inr \<lparr>file_object = D @ [(S, VDict (d @ [(K, VDict [])]))],
           current_class = Some (S, Some K, True), subclasses = idx1, backing = b\<rparr>"
    unfolding h_def idx1_def
    using assms(1) K assms(2) fresh Cons.prems(3) by (rule read_sub_next)
  have "\<And>rest. parse_lines (splitlines (fst (write_subs fs S (entry # subs)) @ rest))
         \<lparr>file_object = D @ [(S, VDict d)], current_class = cc, subclasses = idx, backing = b\<rparr> =
       parse_lines (splitlines rest)
         \<lparr>file_object = D @ [(S, VDict (d @ entry # subs))], current_class = cc',
          subclasses = idx', backing = b\<rparr>"
  proof -
    fix rest
    have "parse_lines (splitlines (fst (write_subs fs S (entry # subs)) @ rest))
         \<lparr>file_object = D @ [(S, VDict d)], current_class = cc, subclasses = idx, backing = b\<rparr> =
       parse_lines (splitlines (h @ CHR 0x0A # (write_props fs sd @ CHR 0x0A # (fst (write_subs fs S subs) @ rest))))
         \<lparr>file_object = D @ [(S, VDict d)], current_class = cc, subclasses = idx, backing = b\<rparr>"
      by (simp add: written)
    also have "\<dots> = parse_lines (splitlines (write_props fs sd @ CHR 0x0A # (fst (write_subs fs S subs) @ rest)))
         \<lparr>file_object = D @ [(S, VDict (d @ [(K, VDict [])]))],
           current_class = Some (S, Some K, True), subclasses = idx1, backing = b\<rparr>"
      unfolding parse_lines_line [OF line] step by simp
    also have "\<dots> = parse_lines (splitlines (CHR 0x0A # (fst (write_subs fs S subs) @ rest)))
         \<lparr>file_object = D @ [(S, VDict (d @ [(K, VDict ([] @ sd))]))],
           current_class = Some (S, Some K, True), subclasses = idx1, backing = b\<rparr>"
      by (rule read_sub_props [OF sd(2) sd(1) assms(2) fresh])
    also have "\<dots> = parse_lines (splitlines (fst (write_subs fs S subs) @ rest))
         \<lparr>file_object = D @ [(S, VDict (d @ [(K, VDict sd)]))],
           current_class = Some (S, Some K, True), subclasses = idx1, backing = b\<rparr>"
      by (simp add: parse_lines_blank)
    also have "\<dots> = parse_lines (splitlines rest)
         \<lparr>file_object = D @ [(S, VDict (d @ entry # subs))], current_class = cc',
          subclasses = idx', backing = b\<rparr>"
      using ih [of rest] by (simp add: entry v)
    finally show "parse_lines (splitlines (fst (write_subs fs S (entry # subs)) @ rest))
         \<lparr>file_object = D @ [(S, VDict d)], current_class = cc, subclasses = idx, backing = b\<rparr> =
       parse_lines (splitlines rest)
         \<lparr>file_object = D @ [(S, VDict (d @ entry # subs))], current_class = cc',
          subclasses = idx', backing = b\<rparr>" .
  qed
  moreover have "snd (write_subs fs S (entry # subs)) = None"
    using none by (simp add: written)
  ultimately show ?case by blast
qed

text \<open>One section: its header and properties, if it has properties of its own, then its
  sub-tables. The first sub-table header makes the section when no header of its own
  was written.\<close>

lemma distinct_props_subs:
  assumes "distinct (map fst d)"
  shows "distinct (map fst (filter (\<lambda>kv. fst kv \<notin> R) d @ filter (\<lambda>kv. fst kv \<in> R) d))"
  using assms by (auto simp: distinct_map_filter)

lemma read_section:
  assumes ok: "section_ok fs idx0 (S, VDict d)" and fresh: "\<not> dict_has D S"
  defines "props \<equiv> filter (\<lambda>kv. fst kv \<notin> registered idx0 S) d"
    and "subs \<equiv> filter (\<lambda>kv. fst kv \<in> registered idx0 S) d"
  defines "hd_text \<equiv> (if props \<noteq> [] then CHR ''['' # S @ '']'' @ CHR 0x0A # write_props fs props @ [CHR 0x0A] else [])"
  shows "snd (write_subs fs S subs) = None \<and>
    (\<exists>cc' idx'. \<forall>rest.
       parse_lines (splitlines (hd_text @ fst (write_subs fs S subs) @ rest))
         \<lparr>file_object = D, current_class = cc, subclasses = idx, backing = b\<rparr> =
       parse_lines (splitlines rest)
         \<lparr>file_object = D @ [(S, VDict (props @ subs))], current_class = cc', subclasses = idx',
          backing = b\<rparr>)"
proof (cases "props = []")
  case False
  from ok have S: "name_ok S" and d: "distinct (map fst d)"
    and p: "list_all (\<lambda>kv. key_ok (fst kv) \<and> value_ok fs (snd kv)) props"
    and s: "list_all (sub_ok fs) subs"
    by (simp_all add: section_ok_def props_def subs_def)
  from d have dist: "distinct (map fst (props @ subs))"
    unfolding props_def subs_def by (rule distinct_props_subs)
  then have dp: "distinct (map fst ([] @ props))" by simp
  define h where "h = CHR ''['' # S @ '']''"
  define idx1 where "idx1 = idx(S \<mapsto> {})"
  have idx1: "idx1 S = Some {}" by (simp add: idx1_def)
  from read_subs [where idx = idx1 and d = props and names = "{}" and cc = "Some (S, None, False)"
      and b = b, OF S fresh s dist idx1]
  obtain cc' idx' where none: "snd (write_subs fs S subs) = None" and
    tail: "\<And>rest. parse_lines (splitlines (fst (write_subs fs S subs) @ rest))
         \<lparr>file_object = D @ [(S, VDict props)], current_class = Some (S, None, False),
          subclasses = idx1, backing = b\<rparr> =
       parse_lines (splitlines rest)
         \<lparr>file_object = D @ [(S, VDict (props @ subs))], current_class = cc', subclasses = idx',
          backing = b\<rparr>"
    by blast
  have line: "\<not> has_linebreak h" unfolding h_def by (rule class_header_line(3) [OF S])
  have step: "parse_line h \<lparr>file_object = D, current_class = cc, subclasses = idx, backing = b\<rparr> =
         Inr \<lparr>file_object = D @ [(S, VDict [])], current_class = Some (S, None, False),
              subclasses = idx1, backing = b\<rparr>"
    unfolding h_def idx1_def using S fresh by (rule read_class)
  have "\<And>rest. parse_lines (splitlines (hd_text @ fst (write_subs fs S subs) @ rest))
         \<lparr>file_object = D, current_class = cc, subclasses = idx, backing = b\<rparr> =
       parse_lines (splitlines rest)
         \<lparr>file_object = D @ [(S, VDict (props @ subs))], current_class = cc', subclasses = idx',
          backing = b\<rparr>"
  proof -
    fix rest
    have "parse_lines (splitlines (hd_text @ fst (write_subs fs S subs) @ rest))
         \<lparr>file_object = D, current_class = cc, subclasses = idx, backing = b\<rparr> =
       parse_lines (splitlines (h @ CHR 0x0A # (write_props fs props @ CHR 0x0A # (fst (write_subs fs S subs) @ rest))))
         \<lparr>file_object = D, current_class = cc, subclasses = idx, backing = b\<rparr>"
      using False by (simp add: hd_text_def h_def)
    also have "\<dots> = parse_lines (splitlines (write_props fs props @ CHR 0x0A # (fst (write_subs fs S subs) @ rest)))
         \<lparr>file_object = D @ [(S, VDict [])], current_class = Some (S, None, False),
              subclasses = idx1, backing = b\<rparr>"
      unfolding parse_lines_line [OF line] step by simp
    also have "\<dots> = parse_lines (splitlines (CHR 0x0A # (fst (write_subs fs S subs) @ rest)))
         \<lparr>file_object = D @ [(S, VDict ([] @ props))], current_class = Some (S, None, False),
              subclasses = idx1, backing = b\<rparr>"
      using p dp fresh by (rule read_props)
    also have "\<dots> = parse_lines (splitlines (fst (write_subs fs S subs) @ rest))
         \<lparr>file_object = D @ [(S, VDict props)], current_class = Some (S, None, False),
              subclasses = idx1, backing = b\<rparr>"
      by (simp add: parse_lines_blank)
    also have "\<dots> = parse_lines (splitlines rest)
         \<lparr>file_object = D @ [(S, VDict (props @ subs))], current_class = cc', subclasses = idx',
          backing = b\<rparr>"
      by (rule tail)
    finally show "parse_lines (splitlines (hd_text @ fst (write_subs fs S subs) @ rest))
         \<lparr>file_object = D, current_class = cc, subclasses = idx, backing = b\<rparr> =
       parse_lines (splitlines rest)
         \<lparr>file_object = D @ [(S, VDict (props @ subs))], current_class = cc', subclasses = idx',
          backing = b\<rparr>" .
  qed
  with none show ?thesis by blast
next
  case True
  from ok have S: "name_ok S" and d: "distinct (map fst d)" and ne: "d \<noteq> []"
    and s: "list_all (sub_ok fs) subs"
    by (simp_all add: section_ok_def subs_def)
  from True have "\<forall>kv\<in>set d. fst kv \<in> registered idx0 S"
    by (auto simp: props_def filter_empty_conv)
  then have all: "subs = d" by (simp add: subs_def)
  with ne obtain entry subs' where subs: "subs = entry # subs'" by (cases subs) auto
  obtain K v where entry: "entry = (K, v)" by (cases entry)
  from s subs entry obtain sd where v: "v = VDict sd" and K: "name_ok K"
    and sd: "distinct (map fst ([] @ sd))" "list_all (\<lambda>kv. key_ok (fst kv) \<and> value_ok fs (snd kv)) sd"
    by (cases v) (auto simp: sub_ok_def props_ok_def)
  from s subs have s': "list_all (sub_ok fs) subs'" by simp
  from d all subs entry v have dist: "distinct (map fst ([(K, VDict sd)] @ subs'))" by simp
  have noK: "\<not> dict_has [] K" by (simp add: dict_has_def)
  define h where "h = CHR ''['' # S @ CHR ''.'' # K @ '']''"
  define idx1 where "idx1 = idx(S \<mapsto> {K})"
  have idx1: "idx1 S = Some {K}" by (simp add: idx1_def)
  from read_subs [where idx = idx1 and d = "[(K, VDict sd)]" and names = "{K}"
      and cc = "Some (S, Some K, True)" and b = b, OF S fresh s' dist idx1]
  obtain cc' idx' where none: "snd (write_subs fs S subs') = None" and
    tail: "\<And>rest. parse_lines (splitlines (fst (write_subs fs S subs') @ rest))
         \<lparr>file_object = D @ [(S, VDict [(K, VDict sd)])], current_class = Some (S, Some K, True),
          subclasses = idx1, backing = b\<rparr> =
       parse_lines (splitlines rest)
         \<lparr>file_object = D @ [(S, VDict ([(K, VDict sd)] @ subs'))], current_class = cc',
          subclasses = idx', backing = b\<rparr>"
    by blast
  have written: "write_subs fs S subs =
      (h @ CHR 0x0A # (write_props fs sd @ CHR 0x0A # fst (write_subs fs S subs')),
       snd (write_subs fs S subs'))"
    by (simp add: subs entry v h_def Let_def split: prod.splits)
  have line: "\<not> has_linebreak h"
    unfolding h_def by (rule sub_header_line(3) [OF S K])
  have step: "parse_line h \<lparr>file_object = D, current_class = cc, subclasses = idx, backing = b\<rparr> =
         Inr \<lparr>file_object = D @ [(S, VDict [(K, VDict [])])],
              current_class = Some (S, Some K, True), subclasses = idx1, backing = b\<rparr>"
    unfolding h_def idx1_def using S K fresh by (rule read_sub_first)
  have "\<And>rest. parse_lines (splitlines (hd_text @ fst (write_subs fs S subs) @ rest))
         \<lparr>file_object = D, current_class = cc, subclasses = idx, backing = b\<rparr> =
       parse_lines (splitlines rest)
         \<lparr>file_object = D @ [(S, VDict (props @ subs))], current_class = cc', subclasses = idx',
          backing = b\<rparr>"
  proof -
    fix rest
    have "parse_lines (splitlines (hd_text @ fst (write_subs fs S subs) @ rest))
         \<lparr>file_object = D, current_class = cc, subclasses = idx, backing = b\<rparr> =
       parse_lines (splitlines (h @ CHR 0x0A # (write_props fs sd @ CHR 0x0A # (fst (write_subs fs S subs') @ rest))))
         \<lparr>file_object = D, current_class = cc, subclasses = idx, backing = b\<rparr>"
      using True by (simp add: hd_text_def written)
    also have "\<dots> = parse_lines (splitlines (write_props fs sd @ CHR 0x0A # (fst (write_subs fs S subs') @ rest)))
         \<lparr>file_object = D @ [(S, VDict ([] @ [(K, VDict [])]))],
              current_class = Some (S, Some K, True), subclasses = idx1, backing = b\<rparr>"
      unfolding parse_lines_line [OF line] step by simp
    also have "\<dots> = parse_lines (splitlines (CHR 0x0A # (fst (write_subs fs S subs') @ rest)))
         \<lparr>file_object = D @ [(S, VDict ([] @ [(K, VDict ([] @ sd))]))],
              current_class = Some (S, Some K, True), subclasses = idx1, backing = b\<rparr>"
      using sd(2) sd(1) fresh noK by (rule read_sub_props)
    also have "\<dots> = parse_lines (splitlines (fst (write_subs fs S subs') @ rest))
         \<lparr>file_object = D @ [(S, VDict [(K, VDict sd)])], current_class = Some (S, Some K, True),
          subclasses = idx1, backing = b\<rparr>"
      by (simp add: parse_lines_blank)
    also have "\<dots> = parse_lines (splitlines rest)
         \<lparr>file_object = D @ [(S, VDict (props @ subs))], current_class = cc', subclasses = idx',
          backing = b\<rparr>"
      using tail [of rest] True by (simp add: subs entry v)
    finally show "parse_lines (splitlines (hd_text @ fst (write_subs fs S subs) @ rest))
         \<lparr>file_object = D, current_class = cc, subclasses = idx, backing = b\<rparr> =
       parse_lines (splitlines rest)
         \<lparr>file_object = D @ [(S, VDict (props @ subs))], current_class = cc', subclasses = idx',
          backing = b\<rparr>" .
  qed
  moreover have "snd (write_subs fs S subs) = None" using none by (simp add: written)
  ultimately show ?thesis by blast
qed

text \<open>The whole document.\<close>

lemma read_classes:
  "list_all (section_ok fs idx0) secs \<Longrightarrow> distinct (map fst (D @ secs)) \<Longrightarrow>
   snd (write_classes fs idx0 secs) = None \<and>
   (\<exists>cc' idx'.
      parse_lines (splitlines (fst (write_classes fs idx0 secs)))
        \<lparr>file_object = D, current_class = cc, subclasses = idx, backing = b\<rparr> =
      Inr \<lparr>file_object = D @ map (written_order idx0) secs, current_class = cc',
           subclasses = idx', backing = b\<rparr>)"
proof (induction secs arbitrary: D cc idx)
  case Nil
  show ?case by (simp add: splitlines_def)
next
  case (Cons entry secs)
  obtain S v where entry: "entry = (S, v)" by (cases entry)
  from Cons.prems(1) entry obtain d where v: "v = VDict d"
    by (cases v) (auto simp: section_ok_def)
  from Cons.prems(1) entry v have ok: "section_ok fs idx0 (S, VDict d)"
    and rest_ok: "list_all (section_ok fs idx0) secs" by simp_all
  from Cons.prems(2) entry have fresh: "\<not> dict_has D S" by (auto simp: dict_has_keys)
  define props where "props = filter (\<lambda>kv. fst kv \<notin> registered idx0 S) d"
  define subs where "subs = filter (\<lambda>kv. fst kv \<in> registered idx0 S) d"
  define hd_text where "hd_text = (if props \<noteq> [] then CHR ''['' # S @ '']'' @ CHR 0x0A # write_props fs props @ [CHR 0x0A] else [])"
  from read_section [OF ok fresh, of cc idx b, folded props_def subs_def, folded hd_text_def]
  obtain cc1 idx1 where none: "snd (write_subs fs S subs) = None" and
    sec: "\<And>rest. parse_lines (splitlines (hd_text @ fst (write_subs fs S subs) @ rest))
         \<lparr>file_object = D, current_class = cc, subclasses = idx, backing = b\<rparr> =
       parse_lines (splitlines rest)
         \<lparr>file_object = D @ [(S, VDict (props @ subs))], current_class = cc1, subclasses = idx1,
          backing = b\<rparr>"
    by blast
  have w: "written_order idx0 entry = (S, VDict (props @ subs))"
    by (simp add: written_order_def entry v props_def subs_def)
  from Cons.prems(2) entry have dist: "distinct (map fst ((D @ [(S, VDict (props @ subs))]) @ secs))"
    by simp
  from Cons.IH [OF rest_ok dist, of cc1 idx1]
  obtain cc' idx' where none': "snd (write_classes fs idx0 secs) = None" and
    tail: "parse_lines (splitlines (fst (write_classes fs idx0 secs)))
        \<lparr>file_object = D @ [(S, VDict (props @ subs))], current_class = cc1, subclasses = idx1,
         backing = b\<rparr> =
      Inr \<lparr>file_object = (D @ [(S, VDict (props @ subs))]) @ map (written_order idx0) secs,
           current_class = cc', subclasses = idx', backing = b\<rparr>"
    by blast
  obtain t where ws: "write_subs fs S subs = (t, None)"
    using none by (cases "write_subs fs S subs") auto
  have written: "write_classes fs idx0 (entry # secs) =
      (hd_text @ fst (write_subs fs S subs) @ fst (write_classes fs idx0 secs),
       snd (write_classes fs idx0 secs))"
    using ws
    by (simp add: entry v Let_def props_def [symmetric] subs_def [symmetric] hd_text_def
        split: prod.splits)
  have "parse_lines (splitlines (fst (write_classes fs idx0 (entry # secs))))
        \<lparr>file_object = D, current_class = cc, subclasses = idx, backing = b\<rparr> =
      Inr \<lparr>file_object = D @ map (written_order idx0) (entry # secs), current_class = cc',
           subclasses = idx', backing = b\<rparr>"
    using sec [of "fst (write_classes fs idx0 secs)"] tail by (simp add: written w)
  moreover have "snd (write_classes fs idx0 (entry # secs)) = None"
    using none' by (simp add: written)
  ultimately show ?case by blast
qed

lemma same_written_order:
  assumes "section_ok fs idx entry"
  shows "fst (written_order idx entry) = fst entry \<and>
    (case (snd (written_order idx entry), snd entry) of
       (VDict d, VDict d') \<Rightarrow> same_mapping d d' | _ \<Rightarrow> False)"
proof -
  obtain S v where entry: "entry = (S, v)" by (cases entry)
  from assms entry obtain d where v: "v = VDict d" and d: "distinct (map fst d)"
    by (cases v) (auto simp: section_ok_def)
  have "set (filter (\<lambda>kv. fst kv \<notin> registered idx S) d @ filter (\<lambda>kv. fst kv \<in> registered idx S) d) = set d"
    by auto
  with d distinct_props_subs [OF d, of "registered idx S"] show ?thesis
    by (simp add: entry v written_order_def same_mapping_def)
qed

lemma same_document_written:
  "list_all (section_ok fs idx) D \<Longrightarrow> same_document (map (written_order idx) D) D"
proof (induction D)
  case Nil
  show ?case by (simp add: same_document_def)
next
  case (Cons e D)
  then have "section_ok fs idx e" and "same_document (map (written_order idx) D) D"
    by simp_all
  with same_written_order [of fs idx e] show ?case by (simp add: same_document_def)
qed

section \<open>The line classifier and the dispatch of \<open>_parse\<close>\<close>

text \<open>
  Claim C9, as amended. The classifier gives every line one tag, and a line is a class
  header exactly when the line itself begins with \<open>[\<close>, ends with \<open>]\<close> and holds no
  dot; an \<open>=\<close> inside does not matter, since the header tests come before the property
  test. White space around the brackets is not removed before the test.
\<close>

theorem classify_class_header:
  "(classify line = ClassHeader) =
     (startswith line (CHR ''['') \<and> endswith line (CHR '']'') \<and> CHR ''.'' \<notin> set line)"
  using isClass_not_skipped [of line]
  by (auto simp: classify_def isClass_def isSubClass_def)

text \<open>
  Claim C9 as stated fails: with a blank before the bracket the text is wrapped in
  brackets once the white space is set aside, yet the line is taken for a property.
\<close>

theorem padded_header_counterexample:
  "isClass (strip '' [a=b]'') \<and> classify '' [a=b]'' = Property"
  by code_simp

section \<open>Decoding a negative number\<close>

text \<open>
  Claim C7. The text \<open>-5\<close> is not all digits, so the integer test rejects it; the float
  test accepts it, and the value decoded is the float \<open>-5.0\<close>.
\<close>

theorem convert_minus_five:
  "\<not> isdigit ''-5'' \<and> py_float ''-5'' = Some (Fin (- 5)) \<and>
   convert_value ''-5'' = VFloat (Fin (- 5))"
  by code_simp

section \<open>Faults that surface from parsing and lookup\<close>

text \<open>
  Claim C3, at the input \<open>[a.b.c]\<close>. The inner text is split on all dots into three
  parts, and unpacking three parts into the two names \<open>cls, subclass\<close> raises
  \<open>ValueError\<close>: construction fails instead of dropping the third part.
\<close>

theorem multi_dot_header_raises:
  "getClassSubClass ''[a.b.c]'' = [''a'', ''b'', ''c''] \<and>
   map_sum id file_object (init (Some ''[a.b.c]'')) = Inl ValueError"
  by code_simp

text \<open>
  Claim C4, at a file that names section \<open>a\<close> a second time after section \<open>b\<close>.
  \<open>_newClass\<close> sets \<open>current_class\<close> only for a name not seen before, so the pointer
  stays on \<open>b\<close> and the property \<open>z\<close> that follows the second \<open>[a]\<close> lands in \<open>b\<close>.
\<close>

theorem reentry_keeps_pointer:
  "map_sum id (\<lambda>st. (file_object st, current_class st))
     (init (Some ''[a]\<newline>x = 1\<newline>[b]\<newline>y = 2\<newline>[a]\<newline>z = 3'')) =
   Inr ([(''a'', VDict [(''x'', VInt 1)]), (''b'', VDict [(''y'', VInt 2), (''z'', VInt 3)])],
        Some (''b'', None, False))"
  by code_simp

text \<open>
  Claim C2, at the key \<open>a.x.y\<close> on the document of a file that sets \<open>x = 5\<close> in
  section \<open>a\<close>. The walk reaches the integer 5, which is neither \<open>None\<close> nor a
  mapping, and calling \<open>.get\<close> on it raises \<open>AttributeError\<close>.
\<close>

theorem get_through_scalar_raises:
  "map_sum id (get ''a.x.y'') (init (Some ''[a]\<newline>x = 5'')) = Inr (Inl AttributeError)"
  by code_simp

section \<open>What \<open>set\<close> does to the sub-table index and to the file\<close>




section \<open>\<open>set\<close> on a path that does not exist yet\<close>




section \<open>Repeated keys under one header\<close>

text \<open>
  Claim C6, as amended. Let the pointer lead to a section that is a mapping, and let
  ASCII property lines follow. Parsing them raises nothing and leaves the pointer where
  it was; afterwards a key that the section held before keeps its value, and any other
  key holds the decoded value of the first line that names it, later lines with the same
  key being ignored. \<open>get\<close> with the dotted path of the section and the key returns
  that first value (or \<open>None\<close> when no line names the key) when the key holds no dot
  and the names of the path hold none: \<open>get\<close> splits its argument on every dot.
\<close>

theorem first_property_wins:
  assumes pointer: "current_class st = Some (cls, sub, flag)"
    and active: "active_section st = Some sec"
    and props: "\<forall>l\<in>set ps. classify l = Property"
    and plain: "\<forall>l\<in>set ps. ascii l"
  shows "\<exists>st' sec'. parse_lines ps st = Inr st' \<and> current_class st' = current_class st \<and>
     active_section st' = Some sec' \<and>
     (\<forall>k. dict_get sec' k = (case dict_get sec k of Some v \<Rightarrow> Some v | None \<Rightarrow> first_value k ps)) \<and>
     (\<forall>k. CHR ''.'' \<notin> set k \<and> CHR ''.'' \<notin> set cls \<and> (\<forall>s. sub = Some s \<longrightarrow> CHR ''.'' \<notin> set s) \<longrightarrow>
        get (active_path st @ ''.'' @ k) st' =
          Inr (case dict_get sec' k of Some v \<Rightarrow> v | None \<Rightarrow> VNone))"
proof -
  from properties_first_wins [OF props active] obtain st' sec' where
    r: "parse_lines ps st = Inr st'" "current_class st' = current_class st"
       "active_section st' = Some sec'"
       "\<forall>k. dict_get sec' k = (case dict_get sec k of Some v \<Rightarrow> Some v | None \<Rightarrow> first_value k ps)"
    by blast
  have path: "active_path st' = active_path st"
    using r(2) by (simp add: active_path_def)
  have pointer': "current_class st' = Some (cls, sub, flag)"
    using r(2) pointer by simp
  have "get (active_path st @ ''.'' @ k) st' =
          Inr (case dict_get sec' k of Some v \<Rightarrow> v | None \<Rightarrow> VNone)"
    if "CHR ''.'' \<notin> set k \<and> CHR ''.'' \<notin> set cls \<and> (\<forall>s. sub = Some s \<longrightarrow> CHR ''.'' \<notin> set s)" for k
    using get_in_active [OF pointer' r(3), of k] that path by simp
  with r show ?thesis by blast
qed

text \<open>The theorem at the lines \<open>k = 1\<close>, \<open>j = x\<close>, \<open>k = 2\<close> under the header \<open>[s]\<close>.\<close>

theorem first_property_wins_witness:
  "current_class \<lparr>file_object = [(''s'', VDict [])], current_class = Some (''s'', None, False),
       subclasses = [''s'' \<mapsto> {}], backing = None\<rparr> = Some (''s'', None, False) \<and>
   active_section \<lparr>file_object = [(''s'', VDict [])], current_class = Some (''s'', None, False),
       subclasses = [''s'' \<mapsto> {}], backing = None\<rparr> = Some [] \<and>
   list_all (\<lambda>l. classify l = Property) [''k = 1'', ''j = x'', ''k = 2''] \<and>
   list_all ascii [''k = 1'', ''j = x'', ''k = 2''] \<and>
   (\<exists>st' sec'. parse_lines [''k = 1'', ''j = x'', ''k = 2'']
        \<lparr>file_object = [(''s'', VDict [])], current_class = Some (''s'', None, False),
         subclasses = [''s'' \<mapsto> {}], backing = None\<rparr> = Inr st' \<and>
      active_section st' = Some sec' \<and>
      dict_get sec' ''k'' = Some (VInt 1) \<and>
      get ''s.k'' st' = Inr (VInt 1))"
proof -
  let ?st = "\<lparr>file_object = [(''s'', VDict [])], current_class = Some (''s'', None, False),
       subclasses = [''s'' \<mapsto> {}], backing = None\<rparr>"
  let ?ps = "[''k = 1'', ''j = x'', ''k = 2'']"
  have h1: "current_class ?st = Some (''s'', None, False)" by simp
  have h2: "active_section ?st = Some []" by (simp add: active_section_def dict_get_def)
  have h3': "list_all (\<lambda>l. classify l = Property) ?ps" by code_simp
  then have h3: "\<forall>l\<in>set ?ps. classify l = Property" by (simp only: list_all_iff)
  have h4': "list_all ascii ?ps" by code_simp
  then have h4: "\<forall>l\<in>set ?ps. ascii l" by (simp only: list_all_iff)
  have fv: "first_value ''k'' ?ps = Some (VInt 1)" by code_simp
  have path: "active_path ?st @ ''.'' @ ''k'' = ''s.k''" by (simp add: active_path_def)
  have nodot: "CHR ''.'' \<notin> set ''k'' \<and> CHR ''.'' \<notin> set ''s'' \<and> (\<forall>s. (None :: string option) = Some s \<longrightarrow> CHR ''.'' \<notin> set s)"
    by simp
  from first_property_wins [OF h1 h2 h3 h4] obtain st' sec' where
    r: "parse_lines ?ps ?st = Inr st'" "active_section st' = Some sec'"
       "\<forall>k. dict_get sec' k = (case dict_get [] k of Some v \<Rightarrow> Some v | None \<Rightarrow> first_value k ?ps)"
       "\<forall>k. CHR ''.'' \<notin> set k \<and> CHR ''.'' \<notin> set ''s'' \<and> (\<forall>s. (None :: string option) = Some s \<longrightarrow> CHR ''.'' \<notin> set s) \<longrightarrow>
        get (active_path ?st @ ''.'' @ k) st' =
          Inr (case dict_get sec' k of Some v \<Rightarrow> v | None \<Rightarrow> VNone)"
    by blast
  have k: "dict_get sec' ''k'' = Some (VInt 1)"
    using r(3) fv by (simp add: dict_get_def)
  have "get (active_path ?st @ ''.'' @ ''k'') st' = Inr (case dict_get sec' ''k'' of Some v \<Rightarrow> v | None \<Rightarrow> VNone)"
    using r(4) nodot by blast
  then have g: "get ''s.k'' st' = Inr (VInt 1)"
    unfolding path k by simp
  from r(1,2) k g have "\<exists>st' sec'. parse_lines ?ps ?st = Inr st' \<and>
      active_section st' = Some sec' \<and>
      dict_get sec' ''k'' = Some (VInt 1) \<and>
      get ''s.k'' st' = Inr (VInt 1)" by blast
  with h1 h2 h3' h4' show ?thesis by (intro conjI)
qed

text \<open>
  Claim C6 as stated fails for a key that holds a dot: under the header \<open>[s]\<close> the lines
  \<open>a.b = 1\<close> and \<open>a.b = 2\<close> store the first value under the key \<open>a.b\<close>, yet
  \<open>get("s.a.b")\<close> looks for \<open>b\<close> inside an entry \<open>a\<close> and returns \<open>None\<close>.
\<close>

theorem dotted_key_counterexample:
  "map_sum id (\<lambda>st. (file_object st, get ''s.a.b'' st))
     (init (Some ''[s]\<newline>a.b = 1\<newline>a.b = 2'')) =
   Inr ([(''s'', VDict [(''a.b'', VInt 1)])], Inr VNone)"
  by code_simp

section \<open>The invariant of the sub-table index\<close>





section \<open>Round trip through the file\<close>

text \<open>
  Claim C1, as amended. For every ASCII file that parses to a document in which every
  section has at least one entry, the names of sections and sub-tables hold no dot,
  every key registered as a sub-table holds a mapping, every property key is stripped,
  holds no \<open>=\<close> and begins with neither \<open>#\<close> nor \<open>[\<close>, and every property value
  is a boolean, a non-negative integer, a float that \<open>str\<close> prints as a literal of
  the same number, a string with no double quote at either end, or a list or inline
  table of such scalars without commas (the keys of an inline table without comma,
  \<open>=\<close> or a quote at either end): saving the document raises nothing, the saved text
  parses, and the document it parses to has the same sections in the same order, each
  holding the same keys with the same values as before.
\<close>

theorem round_trip:
  assumes "ascii content" and "init (Some content) = Inr st" and "expressible fs st"
  shows "\<exists>st'. snd (save fs st) = None \<and>
     init (backing (fst (save fs st))) = Inr st' \<and>
     same_document (file_object st') (file_object st)"
proof -
  from assms(3) have ok: "list_all (section_ok fs (subclasses st)) (file_object st)"
    and dist: "distinct (map fst ([] @ file_object st))"
    by (simp_all add: expressible_def)
  define t where "t = fst (write_classes fs (subclasses st) (file_object st))"
  from read_classes [OF ok dist, of None Map.empty "Some t"]
  obtain cc' idx' where
    none: "snd (write_classes fs (subclasses st) (file_object st)) = None" and
    again: "parse_lines (splitlines t)
        \<lparr>file_object = [], current_class = None, subclasses = Map.empty, backing = Some t\<rparr> =
      Inr \<lparr>file_object = [] @ map (written_order (subclasses st)) (file_object st),
           current_class = cc', subclasses = idx', backing = Some t\<rparr>"
    unfolding t_def by blast
  have saved: "save fs st = (st\<lparr>backing := Some t\<rparr>, None)"
    using none
    by (cases "write_classes fs (subclasses st) (file_object st)") (simp add: save_def t_def)
  have "init (Some t) =
      Inr \<lparr>file_object = map (written_order (subclasses st)) (file_object st),
           current_class = cc', subclasses = idx', backing = Some t\<rparr>"
    using again by (simp add: init_def parse_def load_def new_config_def)
  moreover have "same_document (map (written_order (subclasses st)) (file_object st)) (file_object st)"
    using ok by (rule same_document_written)
  ultimately show ?thesis by (simp add: saved)
qed

text \<open>
  Claim C1 as stated fails: the file \<open>[a]\<close> parses to the document with the one empty
  section \<open>a\<close>; nothing is written for a section without entries, so the saved text is
  empty and parses to the empty document.
\<close>

theorem empty_section_counterexample:
  "map_sum id (\<lambda>st. (file_object st, backing (fst (save (\<lambda>f. ''0.0'') st)),
                      snd (save (\<lambda>f. ''0.0'') st),
                      map_sum id file_object (init (backing (fst (save (\<lambda>f. ''0.0'') st))))))
     (init (Some ''[a]'')) =
   Inr ([(''a'', VDict [])], Some [], None, Inr [])"
  by code_simp

text \<open>The theorem at a file with a section of three properties and one sub-table.\<close>

theorem round_trip_witness:
  "ascii ''[a]\<newline>x = 1\<newline>n = [1, true]\<newline>z = 0.0\<newline>[a.b]\<newline>y = \"hi\"'' \<and>
   (\<exists>st. init (Some ''[a]\<newline>x = 1\<newline>n = [1, true]\<newline>z = 0.0\<newline>[a.b]\<newline>y = \"hi\"'') = Inr st \<and>
     expressible (\<lambda>f. ''0.0'') st \<and>
     (\<exists>st'. snd (save (\<lambda>f. ''0.0'') st) = None \<and>
        init (backing (fst (save (\<lambda>f. ''0.0'') st))) = Inr st' \<and>
        same_document (file_object st') (file_object st)))"
proof -
  let ?t = "''[a]\<newline>x = 1\<newline>n = [1, true]\<newline>z = 0.0\<newline>[a.b]\<newline>y = \"hi\"''"
  let ?fs = "\<lambda>f :: pyfloat. ''0.0''"
  have asc: "ascii ?t" by code_simp
  have "case init (Some ?t) of Inl e \<Rightarrow> False | Inr st \<Rightarrow> expressible ?fs st" by code_simp
  then obtain st where st: "init (Some ?t) = Inr st" and ex: "expressible ?fs st"
    by (cases "init (Some ?t)") auto
  from round_trip [OF asc st ex] st ex
  have "\<exists>st. init (Some ?t) = Inr st \<and> expressible ?fs st \<and>
     (\<exists>st'. snd (save ?fs st) = None \<and>
        init (backing (fst (save ?fs st))) = Inr st' \<and>
        same_document (file_object st') (file_object st))" by blast
  with asc show ?thesis by (intro conjI)
qed

end
